theory Spec2Isabelle
  imports Main "HOL-Library.Word" "HOL-Library.Monad_Syntax"
begin

section \<open>The ring buffer of Sources/ringBuffer.c\<close>

subsection \<open>Data model\<close>

text \<open>
  The C types: \<open>uint8_t\<close> is an 8-bit word, \<open>unsigned int\<close> a 32-bit word whose
  arithmetic wraps modulo \<open>2 ^ 32\<close>. The flag \<open>isOverwriting\<close> is a C \<open>int\<close>; it is only
  ever stored and compared with zero, so its 32 bits are kept as a word.
\<close>

type_synonym uint8_t = "8 word"
type_synonym uint = "32 word"
type_synonym cint = "32 word"

text \<open>
  Modelled from the spec: libNetwork/status.h, which declares \<open>eNETWORK_Error\<close>, is absent.
  The constants are the ones ringBuffer.c uses, with the allocation failure of section 7
  of the specification; \<open>NETWORK_ERROR_BUFFER_SIZE\<close> is what \<open>PushBack\<close> reports on a
  full buffer (the specification's BUFFER_FULL) and \<open>NETWORK_ERROR_BUFFER_EMPTY\<close> what
  \<open>PopFront\<close> reports on an empty one (the specification's BUFFER_EMPTY).
\<close>

datatype eNETWORK_Error =
    NETWORK_OK
  | NETWORK_ERROR_ALLOC
  | NETWORK_ERROR_BUFFER_SIZE
  | NETWORK_ERROR_BUFFER_EMPTY

text \<open>
  Modelled from the spec: ringBuffer.h, which declares the structure, is absent. The
  fields are the ones ringBuffer.c reads and writes; the sizes and the two indices are
  the unsigned integers of section 3 of the specification, with the type
  \<open>unsigned int\<close> of the constructor's parameters that are stored in them. The storage
  \<open>dataBuffer\<close> is the list of the bytes of the allocated block. The mutex is left out:
  the model is sequential, every operation runs from lock to unlock without
  interleaving.
\<close>

record network_ringBuffer_t =
  dataBuffer :: "uint8_t list"
  numberOfCell :: uint
  cellSize :: uint
  indexInput :: uint
  indexOutput :: uint
  isOverwriting :: cint

subsection \<open>Undefined behaviour\<close>

text \<open>
  Every operation returns an option: \<open>None\<close> stands for a run on which C gives no
  meaning to the program (a division or a remainder by zero, a \<open>memcpy\<close> that leaves
  the block it reads or the block it writes, a \<open>memcpy\<close> through a null pointer).
\<close>

text \<open>
  \<open>memcpy (dst + doff, src + soff, len)\<close>: the block \<open>dst\<close> with \<open>len\<close> bytes replaced,
  defined only when the bytes lie inside both blocks.
\<close>

definition memcpy :: "uint8_t list \<Rightarrow> nat \<Rightarrow> uint8_t list \<Rightarrow> nat \<Rightarrow> nat \<Rightarrow> uint8_t list option" where
  "memcpy dst doff src soff len =
     (if doff + len \<le> length dst \<and> soff + len \<le> length src
      then Some (take doff dst @ take len (drop soff src) @ drop (doff + len) dst)
      else None)"

text \<open>
  The offset of \<open>buffPointor\<close> in the storage, the expression
  \<open>index % (pRingBuff->numberOfCell * pRingBuff->cellSize)\<close> of the three accessors.
  The product is an \<open>unsigned int\<close> product; a remainder by zero is undefined.
\<close>

definition buffPointor :: "network_ringBuffer_t \<Rightarrow> uint \<Rightarrow> nat option" where
  "buffPointor pRingBuff index =
     (if numberOfCell pRingBuff * cellSize pRingBuff = 0 then None
      else Some (unat (index mod (numberOfCell pRingBuff * cellSize pRingBuff))))"

subsection \<open>The inline helpers of ringBuffer.h\<close>

text \<open>
  Modelled from the spec: ringBuffer.h, which defines the helpers
  \<open>NETWORK_RingBuffGetFreeCellNb\<close> and \<open>NETWORK_RingBuffIsEmpty\<close> called by
  ringBuffer.c, is absent. Section 4.1 of the specification: the occupancy queries
  derive purely from \<open>writeIndex - readIndex\<close> versus the capacity, the occupied bytes
  are \<open>writeIndex - readIndex\<close>, and the buffer is empty when
  \<open>writeIndex == readIndex\<close>. The number of free cells is the number of cells less the
  number of occupied cells; the division by a zero \<open>cellSize\<close> is undefined.
\<close>

definition NETWORK_RingBuffGetFreeCellNb :: "network_ringBuffer_t \<Rightarrow> uint option" where
  "NETWORK_RingBuffGetFreeCellNb pRingBuff =
     (if cellSize pRingBuff = 0 then None
      else Some (numberOfCell pRingBuff
                 - (indexInput pRingBuff - indexOutput pRingBuff) div cellSize pRingBuff))"

definition NETWORK_RingBuffIsEmpty :: "network_ringBuffer_t \<Rightarrow> bool" where
  "NETWORK_RingBuffIsEmpty pRingBuff = (indexInput pRingBuff = indexOutput pRingBuff)"

subsection \<open>Construction and destruction\<close>

text \<open>
  \<open>NETWORK_DeleteRingBuffer\<close> frees the storage and the structure and resets the
  caller's pointer: whatever it is given, the pointer it leaves is null.
\<close>

definition NETWORK_DeleteRingBuffer :: "network_ringBuffer_t option \<Rightarrow> network_ringBuffer_t option" where
  "NETWORK_DeleteRingBuffer ppRingBuff = None"

text \<open>
  The two calls of \<open>malloc\<close> are the environment's choice, so their outcome is a
  parameter: \<open>structAlloc\<close> says whether the structure is obtained, and \<open>dataAlloc\<close> is
  \<open>None\<close> when \<open>malloc (cellSize * numberOfCell)\<close> returns null and otherwise gives the
  indeterminate bytes of the fresh block, of which the requested number is taken.
  The requested size is an \<open>unsigned int\<close> product.
\<close>

definition NETWORK_NewRingBufferWithOverwriting ::
  "bool \<Rightarrow> (nat \<Rightarrow> uint8_t) option \<Rightarrow> uint \<Rightarrow> uint \<Rightarrow> cint \<Rightarrow> network_ringBuffer_t option" where
  "NETWORK_NewRingBufferWithOverwriting structAlloc dataAlloc numberOfCell' cellSize' isOverwriting' =
     (if structAlloc then
        (case dataAlloc of
           None \<Rightarrow>
             NETWORK_DeleteRingBuffer
               (Some \<lparr>dataBuffer = [], numberOfCell = numberOfCell', cellSize = cellSize',
                      indexInput = 0, indexOutput = 0, isOverwriting = isOverwriting'\<rparr>)
         | Some bytes \<Rightarrow>
             Some \<lparr>dataBuffer = map bytes [0 ..< unat (cellSize' * numberOfCell')],
                   numberOfCell = numberOfCell', cellSize = cellSize',
                   indexInput = 0, indexOutput = 0, isOverwriting = isOverwriting'\<rparr>)
      else None)"

definition NETWORK_NewRingBuffer ::
  "bool \<Rightarrow> (nat \<Rightarrow> uint8_t) option \<Rightarrow> uint \<Rightarrow> uint \<Rightarrow> network_ringBuffer_t option" where
  "NETWORK_NewRingBuffer structAlloc dataAlloc numberOfCell' cellSize' =
     NETWORK_NewRingBufferWithOverwriting structAlloc dataAlloc numberOfCell' cellSize' 0"

subsection \<open>The accessors\<close>

text \<open>
  \<open>NETWORK_RingBuffPushBack\<close>: the error code and the buffer after the call. The
  helper is called twice, as in the source; \<open>pNewData\<close> is the block the caller passes.
\<close>

definition NETWORK_RingBuffPushBack ::
  "network_ringBuffer_t \<Rightarrow> uint8_t list \<Rightarrow> (eNETWORK_Error \<times> network_ringBuffer_t) option" where
  "NETWORK_RingBuffPushBack pRingBuff pNewData =
     do {
       free \<leftarrow> NETWORK_RingBuffGetFreeCellNb pRingBuff;
       if free \<noteq> 0 \<or> isOverwriting pRingBuff \<noteq> 0 then
         do {
           free' \<leftarrow> NETWORK_RingBuffGetFreeCellNb pRingBuff;
           let rb = (if free' = 0
                     then pRingBuff\<lparr>indexOutput := indexOutput pRingBuff + cellSize pRingBuff\<rparr>
                     else pRingBuff);
           off \<leftarrow> buffPointor rb (indexInput rb);
           buf \<leftarrow> memcpy (dataBuffer rb) off pNewData 0 (unat (cellSize rb));
           Some (NETWORK_OK, rb\<lparr>dataBuffer := buf, indexInput := indexInput rb + cellSize rb\<rparr>)
         }
       else Some (NETWORK_ERROR_BUFFER_SIZE, pRingBuff)
     }"

text \<open>
  \<open>NETWORK_RingBuffPopFront\<close>: the error code, the buffer after the call and the
  caller's destination block after the call (\<open>None\<close> is the null pointer).
\<close>

definition NETWORK_RingBuffPopFront ::
  "network_ringBuffer_t \<Rightarrow> uint8_t list option
     \<Rightarrow> (eNETWORK_Error \<times> network_ringBuffer_t \<times> uint8_t list option) option" where
  "NETWORK_RingBuffPopFront pRingBuff pPopData =
     (if \<not> NETWORK_RingBuffIsEmpty pRingBuff then
        do {
          popped \<leftarrow>
            (case pPopData of
               None \<Rightarrow> Some None
             | Some dst \<Rightarrow>
                 do {
                   off \<leftarrow> buffPointor pRingBuff (indexOutput pRingBuff);
                   dst' \<leftarrow> memcpy dst 0 (dataBuffer pRingBuff) off (unat (cellSize pRingBuff));
                   Some (Some dst')
                 });
          Some (NETWORK_OK,
                pRingBuff\<lparr>indexOutput := indexOutput pRingBuff + cellSize pRingBuff\<rparr>,
                popped)
        }
      else Some (NETWORK_ERROR_BUFFER_EMPTY, pRingBuff, pPopData))"

text \<open>
  \<open>NETWORK_RingBuffFront\<close>: the pointer into the storage is computed before the test
  for emptiness, and the copy goes through \<open>pFrontData\<close> without a test for null.
\<close>

definition NETWORK_RingBuffFront ::
  "network_ringBuffer_t \<Rightarrow> uint8_t list option
     \<Rightarrow> (eNETWORK_Error \<times> network_ringBuffer_t \<times> uint8_t list option) option" where
  "NETWORK_RingBuffFront pRingBuff pFrontData =
     do {
       off \<leftarrow> buffPointor pRingBuff (indexOutput pRingBuff);
       if \<not> NETWORK_RingBuffIsEmpty pRingBuff then
         (case pFrontData of
            None \<Rightarrow> None
          | Some dst \<Rightarrow>
              do {
                dst' \<leftarrow> memcpy dst 0 (dataBuffer pRingBuff) off (unat (cellSize pRingBuff));
                Some (NETWORK_OK, pRingBuff, Some dst')
              })
       else Some (NETWORK_ERROR_BUFFER_SIZE, pRingBuff, pFrontData)
     }"

section \<open>Notions of the specification\<close>

text \<open>
  The occupied byte count \<open>writeIndex - readIndex\<close>, an \<open>unsigned int\<close> difference.
\<close>

definition occupied :: "network_ringBuffer_t \<Rightarrow> uint" where
  "occupied pRingBuff = indexInput pRingBuff - indexOutput pRingBuff"

text \<open>
  The data model of section 3 of the specification: both sizes are positive and the
  storage has exactly \<open>cellCount \<times> cellSize\<close> bytes, a number that an \<open>unsigned int\<close>
  holds (so that the product the code computes is that number).
\<close>

definition wellSized :: "network_ringBuffer_t \<Rightarrow> bool" where
  "wellSized pRingBuff =
     (0 < numberOfCell pRingBuff \<and> 0 < cellSize pRingBuff
      \<and> unat (numberOfCell pRingBuff) * unat (cellSize pRingBuff) < 2 ^ 32
      \<and> length (dataBuffer pRingBuff) = unat (numberOfCell pRingBuff) * unat (cellSize pRingBuff))"

text \<open>
  An index that counts whole cells: it is a multiple of \<open>cellSize\<close>. The indices start
  at 0 and advance by \<open>cellSize\<close>, so both count whole cells until one of them passes
  \<open>2 ^ 32\<close>.
\<close>

definition countsCells :: "network_ringBuffer_t \<Rightarrow> uint \<Rightarrow> bool" where
  "countsCells pRingBuff index = (unat (cellSize pRingBuff) dvd unat index)"

text \<open>The cell of \<open>len\<close> bytes found at a byte offset of a block.\<close>

definition cellAt :: "uint8_t list \<Rightarrow> nat \<Rightarrow> nat \<Rightarrow> uint8_t list" where
  "cellAt block off len = take len (drop off block)"

text \<open>
  The invariant of the occupied byte count: with a positive \<open>cellSize\<close> and a
  capacity that an \<open>unsigned int\<close> holds, it is a multiple of \<open>cellSize\<close> that does not
  exceed the capacity.
\<close>

definition occupancy_ok :: "network_ringBuffer_t \<Rightarrow> bool" where
  "occupancy_ok rb =
     (0 < cellSize rb \<and> unat (numberOfCell rb) * unat (cellSize rb) < 2 ^ 32
      \<and> unat (occupied rb) \<le> unat (numberOfCell rb) * unat (cellSize rb)
      \<and> unat (cellSize rb) dvd unat (occupied rb))"

subsection \<open>Sequences of calls\<close>

datatype operation =
    PushBack "uint8_t list"
  | PopFront "uint8_t list option"
  | Front "uint8_t list option"

fun step :: "network_ringBuffer_t \<Rightarrow> operation \<Rightarrow> network_ringBuffer_t option" where
  "step rb (PushBack pNewData) = map_option snd (NETWORK_RingBuffPushBack rb pNewData)"
| "step rb (PopFront pPopData) = map_option (fst \<circ> snd) (NETWORK_RingBuffPopFront rb pPopData)"
| "step rb (Front pFrontData) = map_option (fst \<circ> snd) (NETWORK_RingBuffFront rb pFrontData)"

text \<open>The buffer after a sequence of calls; \<open>None\<close> when one of them is undefined.\<close>

fun run :: "network_ringBuffer_t \<Rightarrow> operation list \<Rightarrow> network_ringBuffer_t option" where
  "run rb [] = Some rb"
| "run rb (x # xs) = Option.bind (step rb x) (\<lambda>rb'. run rb' xs)"

text \<open>Pushing a list of cells one after the other: the error codes and the buffer left.\<close>

fun push_cells ::
  "network_ringBuffer_t \<Rightarrow> uint8_t list list \<Rightarrow> (eNETWORK_Error list \<times> network_ringBuffer_t) option" where
  "push_cells rb [] = Some ([], rb)"
| "push_cells rb (c # cells) =
     (case NETWORK_RingBuffPushBack rb c of
        None \<Rightarrow> None
      | Some (e, rb') \<Rightarrow>
          (case push_cells rb' cells of
             None \<Rightarrow> None
           | Some (es, rb'') \<Rightarrow> Some (e # es, rb'')))"

text \<open>
  Popping once for each destination of a list: the error codes, the buffer left and the
  destinations after the calls.
\<close>

fun pop_cells ::
  "network_ringBuffer_t \<Rightarrow> uint8_t list option list
     \<Rightarrow> (eNETWORK_Error list \<times> network_ringBuffer_t \<times> uint8_t list option list) option" where
  "pop_cells rb [] = Some ([], rb, [])"
| "pop_cells rb (d # dsts) =
     (case NETWORK_RingBuffPopFront rb d of
        None \<Rightarrow> None
      | Some (e, rb', d') \<Rightarrow>
          (case pop_cells rb' dsts of
             None \<Rightarrow> None
           | Some (es, rb'', ds') \<Rightarrow> Some (e # es, rb'', d' # ds')))"

text \<open>Pushing the cells, then popping into the destinations; the codes of both phases.\<close>

definition push_then_pop ::
  "network_ringBuffer_t \<Rightarrow> uint8_t list list \<Rightarrow> uint8_t list option list
     \<Rightarrow> (eNETWORK_Error list \<times> eNETWORK_Error list \<times> uint8_t list option list) option" where
  "push_then_pop rb cells dsts =
     (case push_cells rb cells of
        None \<Rightarrow> None
      | Some (es, rb') \<Rightarrow>
          (case pop_cells rb' dsts of
             None \<Rightarrow> None
           | Some (es', rb'', ds') \<Rightarrow> Some (es, es', ds')))"



text \<open>A call whose blocks hold a cell: the source of a push, the destination of a read.\<close>

fun holdsCell :: "network_ringBuffer_t \<Rightarrow> operation \<Rightarrow> bool" where
  "holdsCell rb (PushBack pNewData) = (unat (cellSize rb) \<le> length pNewData)"
| "holdsCell rb (PopFront None) = True"
| "holdsCell rb (PopFront (Some dst)) = (unat (cellSize rb) \<le> length dst)"
| "holdsCell rb (Front None) = False"
| "holdsCell rb (Front (Some dst)) = (unat (cellSize rb) \<le> length dst)"

text \<open>
  The buffers in use: well-sized, with both indices counting whole cells and at most
  \<open>k\<close> cells ever pushed and popped.
\<close>

definition inUse :: "nat \<Rightarrow> network_ringBuffer_t \<Rightarrow> bool" where
  "inUse k rb =
     (wellSized rb \<and> countsCells rb (indexInput rb) \<and> countsCells rb (indexOutput rb)
      \<and> unat (indexInput rb) \<le> k * unat (cellSize rb)
      \<and> unat (indexOutput rb) \<le> k * unat (cellSize rb))"

subsection \<open>The buffer as a queue\<close>

text \<open>
  The cells a buffer holds, oldest first. The oldest is cell number
  \<open>indexOutput div cellSize\<close> of all the cells ever pushed, and cell number \<open>k\<close> lies
  in slot \<open>k mod cellCount\<close> of the storage.
\<close>

definition oldest :: "network_ringBuffer_t \<Rightarrow> nat" where
  "oldest rb = unat (indexOutput rb) div unat (cellSize rb)"

definition held :: "network_ringBuffer_t \<Rightarrow> nat" where
  "held rb = unat (occupied rb) div unat (cellSize rb)"

definition slotCell :: "network_ringBuffer_t \<Rightarrow> nat \<Rightarrow> uint8_t list" where
  "slotCell rb k =
     cellAt (dataBuffer rb) ((k mod unat (numberOfCell rb)) * unat (cellSize rb))
       (unat (cellSize rb))"

definition queued :: "network_ringBuffer_t \<Rightarrow> uint8_t list list" where
  "queued rb = map (\<lambda>i. slotCell rb (oldest rb + i)) [0 ..< held rb]"

text \<open>
  A buffer in steady use: well-sized, the occupied byte count within the capacity and
  a multiple of \<open>cellSize\<close>, \<open>indexOutput\<close> counting whole cells, and \<open>indexInput\<close> not
  having passed \<open>2 ^ 32\<close> since \<open>indexOutput\<close> did.
\<close>

definition steady :: "network_ringBuffer_t \<Rightarrow> bool" where
  "steady rb =
     (wellSized rb \<and> occupancy_ok rb \<and> countsCells rb (indexOutput rb)
      \<and> unat (indexOutput rb) + unat (occupied rb) = unat (indexInput rb))"

subsection \<open>Concrete buffers\<close>

text \<open>A fresh block of zero bytes, and the buffer of two cells of four bytes.\<close>

definition zero_bytes :: "nat \<Rightarrow> uint8_t" where
  "zero_bytes i = 0"

definition buffer_2x4 :: "cint \<Rightarrow> network_ringBuffer_t" where
  "buffer_2x4 overwriting =
     \<lparr>dataBuffer = [0, 0, 0, 0, 0, 0, 0, 0], numberOfCell = 2, cellSize = 4,
      indexInput = 0, indexOutput = 0, isOverwriting = overwriting\<rparr>"

text \<open>The buffer of two cells of four bytes in any state.\<close>

definition held_2x4 :: "uint8_t list \<Rightarrow> uint \<Rightarrow> uint \<Rightarrow> cint \<Rightarrow> network_ringBuffer_t" where
  "held_2x4 bytes input output overwriting =
     \<lparr>dataBuffer = bytes, numberOfCell = 2, cellSize = 4,
      indexInput = input, indexOutput = output, isOverwriting = overwriting\<rparr>"

definition cell_1 :: "uint8_t list" where "cell_1 = [0x11, 0x12, 0x13, 0x14]"
definition cell_2 :: "uint8_t list" where "cell_2 = [0x21, 0x22, 0x23, 0x24]"
definition cell_3 :: "uint8_t list" where "cell_3 = [0x31, 0x32, 0x33, 0x34]"

text \<open>A destination of four bytes.\<close>

definition dest_4 :: "uint8_t list" where "dest_4 = [0xEE, 0xEE, 0xEE, 0xEE]"

definition zero_cell :: "uint8_t list" where "zero_cell = [0, 0, 0, 0]"

text \<open>The buffer of two cells of four zero bytes, empty, with both indices at \<open>index\<close>.\<close>

definition idle_2x4 :: "uint \<Rightarrow> network_ringBuffer_t" where
  "idle_2x4 index =
     \<lparr>dataBuffer = [0, 0, 0, 0, 0, 0, 0, 0], numberOfCell = 2, cellSize = 4,
      indexInput = index, indexOutput = index, isOverwriting = 0\<rparr>"

text \<open>\<open>k\<close> times: push a cell, pop it.\<close>

definition push_pop_rounds :: "nat \<Rightarrow> operation list" where
  "push_pop_rounds k = concat (replicate k [PushBack zero_cell, PopFront None])"

text \<open>\<open>k\<close> times: push the cell \<open>c\<close>.\<close>

definition pushes :: "nat \<Rightarrow> uint8_t list \<Rightarrow> operation list" where
  "pushes k c = replicate k (PushBack c)"

text \<open>
  The buffer of two cells of three bytes that overwrites, holding zero bytes, and a cell
  of three zero bytes.
\<close>

definition held_2x3 :: "uint \<Rightarrow> uint \<Rightarrow> network_ringBuffer_t" where
  "held_2x3 input output =
     \<lparr>dataBuffer = [0, 0, 0, 0, 0, 0], numberOfCell = 2, cellSize = 3,
      indexInput = input, indexOutput = output, isOverwriting = 1\<rparr>"

definition zero_3 :: "uint8_t list" where "zero_3 = [0, 0, 0]"

text \<open>
  The buffers of \<open>2 ^ 31 + 1\<close> cells of six and of two bytes: the \<open>unsigned int\<close>
  products \<open>(2 ^ 31 + 1) * 6\<close> and \<open>(2 ^ 31 + 1) * 2\<close> are 6 and 2, and so are the sizes
  of the storage that \<open>malloc\<close> is asked for.
\<close>

definition wide_6 :: "uint \<Rightarrow> network_ringBuffer_t" where
  "wide_6 input =
     \<lparr>dataBuffer = [0, 0, 0, 0, 0, 0], numberOfCell = 0x80000001, cellSize = 6,
      indexInput = input, indexOutput = 0, isOverwriting = 0\<rparr>"

definition zero_6 :: "uint8_t list" where "zero_6 = [0, 0, 0, 0, 0, 0]"

definition wide_2 :: "uint8_t list \<Rightarrow> network_ringBuffer_t" where
  "wide_2 bytes =
     \<lparr>dataBuffer = bytes, numberOfCell = 0x80000001, cellSize = 2,
      indexInput = 0, indexOutput = 0, isOverwriting = 0\<rparr>"

text \<open>The buffer of three cells of four zero bytes, empty, with both indices at \<open>index\<close>.\<close>

definition idle_3x4 :: "uint \<Rightarrow> network_ringBuffer_t" where
  "idle_3x4 index =
     \<lparr>dataBuffer = [0, 0, 0, 0, 0, 0, 0, 0, 0, 0, 0, 0], numberOfCell = 3, cellSize = 4,
      indexInput = index, indexOutput = index, isOverwriting = 0\<rparr>"

section \<open>The accessors, case by case\<close>

lemma held_2x4_fields [simp]:
  "dataBuffer (held_2x4 bytes input output overwriting) = bytes"
  "numberOfCell (held_2x4 bytes input output overwriting) = 2"
  "cellSize (held_2x4 bytes input output overwriting) = 4"
  "indexInput (held_2x4 bytes input output overwriting) = input"
  "indexOutput (held_2x4 bytes input output overwriting) = output"
  "isOverwriting (held_2x4 bytes input output overwriting) = overwriting"
  by (simp_all add: held_2x4_def)

lemma PushBack_undefined:
  "cellSize rb = 0 \<Longrightarrow> NETWORK_RingBuffPushBack rb d = None"
  by (simp add: NETWORK_RingBuffPushBack_def NETWORK_RingBuffGetFreeCellNb_def)

lemma PushBack_full:
  "cellSize rb \<noteq> 0 \<Longrightarrow> numberOfCell rb - occupied rb div cellSize rb = 0 \<Longrightarrow>
   isOverwriting rb = 0 \<Longrightarrow>
   NETWORK_RingBuffPushBack rb d = Some (NETWORK_ERROR_BUFFER_SIZE, rb)"
  by (simp add: NETWORK_RingBuffPushBack_def NETWORK_RingBuffGetFreeCellNb_def occupied_def)

lemma PushBack_room:
  "cellSize rb \<noteq> 0 \<Longrightarrow> numberOfCell rb - occupied rb div cellSize rb \<noteq> 0 \<Longrightarrow>
   NETWORK_RingBuffPushBack rb d
     = (if numberOfCell rb * cellSize rb = 0 then None
        else map_option
               (\<lambda>buf. (NETWORK_OK,
                        rb\<lparr>dataBuffer := buf, indexInput := indexInput rb + cellSize rb\<rparr>))
               (memcpy (dataBuffer rb)
                  (unat (indexInput rb mod (numberOfCell rb * cellSize rb))) d 0
                  (unat (cellSize rb))))"
  by (cases "memcpy (dataBuffer rb)
                  (unat (indexInput rb mod (numberOfCell rb * cellSize rb))) d 0
                  (unat (cellSize rb))")
     (simp_all add: NETWORK_RingBuffPushBack_def NETWORK_RingBuffGetFreeCellNb_def occupied_def
        buffPointor_def)

lemma PushBack_over:
  "cellSize rb \<noteq> 0 \<Longrightarrow> numberOfCell rb - occupied rb div cellSize rb = 0 \<Longrightarrow>
   isOverwriting rb \<noteq> 0 \<Longrightarrow>
   NETWORK_RingBuffPushBack rb d
     = (if numberOfCell rb * cellSize rb = 0 then None
        else map_option
               (\<lambda>buf. (NETWORK_OK,
                        rb\<lparr>indexOutput := indexOutput rb + cellSize rb, dataBuffer := buf,
                           indexInput := indexInput rb + cellSize rb\<rparr>))
               (memcpy (dataBuffer rb)
                  (unat (indexInput rb mod (numberOfCell rb * cellSize rb))) d 0
                  (unat (cellSize rb))))"
  by (cases "memcpy (dataBuffer rb)
                  (unat (indexInput rb mod (numberOfCell rb * cellSize rb))) d 0
                  (unat (cellSize rb))")
     (simp_all add: NETWORK_RingBuffPushBack_def NETWORK_RingBuffGetFreeCellNb_def occupied_def
        buffPointor_def)

lemma PushBack_cases:
  assumes "NETWORK_RingBuffPushBack rb d = Some (e, rb')"
  obtains
    (full) "e = NETWORK_ERROR_BUFFER_SIZE" "rb' = rb" "isOverwriting rb = 0"
      "cellSize rb \<noteq> 0" "numberOfCell rb - occupied rb div cellSize rb = 0"
  | (room) buf where "e = NETWORK_OK" "cellSize rb \<noteq> 0"
      "numberOfCell rb - occupied rb div cellSize rb \<noteq> 0"
      "numberOfCell rb * cellSize rb \<noteq> 0"
      "memcpy (dataBuffer rb) (unat (indexInput rb mod (numberOfCell rb * cellSize rb))) d 0
         (unat (cellSize rb)) = Some buf"
      "rb' = rb\<lparr>dataBuffer := buf, indexInput := indexInput rb + cellSize rb\<rparr>"
  | (over) buf where "e = NETWORK_OK" "cellSize rb \<noteq> 0" "isOverwriting rb \<noteq> 0"
      "numberOfCell rb - occupied rb div cellSize rb = 0"
      "numberOfCell rb * cellSize rb \<noteq> 0"
      "memcpy (dataBuffer rb) (unat (indexInput rb mod (numberOfCell rb * cellSize rb))) d 0
         (unat (cellSize rb)) = Some buf"
      "rb' = rb\<lparr>indexOutput := indexOutput rb + cellSize rb, dataBuffer := buf,
                indexInput := indexInput rb + cellSize rb\<rparr>"
proof -
  have cs: "cellSize rb \<noteq> 0"
    using assms PushBack_undefined [of rb d] by auto
  show ?thesis
  proof (cases "numberOfCell rb - occupied rb div cellSize rb = 0")
    case fz: True
    show ?thesis
    proof (cases "isOverwriting rb = 0")
      case True
      then show ?thesis using assms full cs fz by (simp add: PushBack_full)
    next
      case False
      have eq: "(if numberOfCell rb * cellSize rb = 0 then None
        else map_option
               (\<lambda>buf. (NETWORK_OK,
                        rb\<lparr>indexOutput := indexOutput rb + cellSize rb, dataBuffer := buf,
                           indexInput := indexInput rb + cellSize rb\<rparr>))
               (memcpy (dataBuffer rb)
                  (unat (indexInput rb mod (numberOfCell rb * cellSize rb))) d 0
                  (unat (cellSize rb)))) = Some (e, rb')"
        using assms PushBack_over [OF cs fz False, of d] by simp
      then have nz: "numberOfCell rb * cellSize rb \<noteq> 0" by (simp split: if_splits)
      with eq obtain buf where
        "memcpy (dataBuffer rb) (unat (indexInput rb mod (numberOfCell rb * cellSize rb))) d 0
           (unat (cellSize rb)) = Some buf"
        "e = NETWORK_OK"
        "rb' = rb\<lparr>indexOutput := indexOutput rb + cellSize rb, dataBuffer := buf,
                indexInput := indexInput rb + cellSize rb\<rparr>"
        by (cases "memcpy (dataBuffer rb) (unat (indexInput rb mod (numberOfCell rb * cellSize rb))) d 0
           (unat (cellSize rb))") simp_all
      then show ?thesis using over [of buf] cs fz False nz by simp
    qed
  next
    case fnz: False
    have eq: "(if numberOfCell rb * cellSize rb = 0 then None
        else map_option
               (\<lambda>buf. (NETWORK_OK,
                        rb\<lparr>dataBuffer := buf, indexInput := indexInput rb + cellSize rb\<rparr>))
               (memcpy (dataBuffer rb)
                  (unat (indexInput rb mod (numberOfCell rb * cellSize rb))) d 0
                  (unat (cellSize rb)))) = Some (e, rb')"
      using assms PushBack_room [OF cs fnz, of d] by simp
    then have nz: "numberOfCell rb * cellSize rb \<noteq> 0" by (simp split: if_splits)
    with eq obtain buf where
      "memcpy (dataBuffer rb) (unat (indexInput rb mod (numberOfCell rb * cellSize rb))) d 0
         (unat (cellSize rb)) = Some buf"
      "e = NETWORK_OK"
      "rb' = rb\<lparr>dataBuffer := buf, indexInput := indexInput rb + cellSize rb\<rparr>"
      by (cases "memcpy (dataBuffer rb) (unat (indexInput rb mod (numberOfCell rb * cellSize rb))) d 0
         (unat (cellSize rb))") simp_all
    then show ?thesis using room [of buf] cs fnz nz by simp
  qed
qed

lemma PopFront_empty:
  "indexInput rb = indexOutput rb \<Longrightarrow>
   NETWORK_RingBuffPopFront rb dst = Some (NETWORK_ERROR_BUFFER_EMPTY, rb, dst)"
  by (simp add: NETWORK_RingBuffPopFront_def NETWORK_RingBuffIsEmpty_def)

lemma PopFront_discard:
  "indexInput rb \<noteq> indexOutput rb \<Longrightarrow>
   NETWORK_RingBuffPopFront rb None
     = Some (NETWORK_OK, rb\<lparr>indexOutput := indexOutput rb + cellSize rb\<rparr>, None)"
  by (simp add: NETWORK_RingBuffPopFront_def NETWORK_RingBuffIsEmpty_def)

lemma PopFront_copy:
  "indexInput rb \<noteq> indexOutput rb \<Longrightarrow>
   NETWORK_RingBuffPopFront rb (Some d)
     = (if numberOfCell rb * cellSize rb = 0 then None
        else map_option
               (\<lambda>d'. (NETWORK_OK, rb\<lparr>indexOutput := indexOutput rb + cellSize rb\<rparr>, Some d'))
               (memcpy d 0 (dataBuffer rb)
                  (unat (indexOutput rb mod (numberOfCell rb * cellSize rb)))
                  (unat (cellSize rb))))"
  by (cases "memcpy d 0 (dataBuffer rb)
                  (unat (indexOutput rb mod (numberOfCell rb * cellSize rb))) (unat (cellSize rb))")
     (simp_all add: NETWORK_RingBuffPopFront_def NETWORK_RingBuffIsEmpty_def buffPointor_def)

lemma PopFront_cases:
  assumes "NETWORK_RingBuffPopFront rb dst = Some (e, rb', dst')"
  obtains
    (empty) "e = NETWORK_ERROR_BUFFER_EMPTY" "rb' = rb" "dst' = dst"
      "indexInput rb = indexOutput rb"
  | (discard) "e = NETWORK_OK" "indexInput rb \<noteq> indexOutput rb" "dst = None" "dst' = None"
      "rb' = rb\<lparr>indexOutput := indexOutput rb + cellSize rb\<rparr>"
  | (copy) d d' where "e = NETWORK_OK" "indexInput rb \<noteq> indexOutput rb" "dst = Some d"
      "dst' = Some d'" "numberOfCell rb * cellSize rb \<noteq> 0"
      "memcpy d 0 (dataBuffer rb) (unat (indexOutput rb mod (numberOfCell rb * cellSize rb)))
         (unat (cellSize rb)) = Some d'"
      "rb' = rb\<lparr>indexOutput := indexOutput rb + cellSize rb\<rparr>"
proof (cases "indexInput rb = indexOutput rb")
  case True
  then show ?thesis using assms empty by (simp add: PopFront_empty)
next
  case ne: False
  show ?thesis
  proof (cases dst)
    case None
    then show ?thesis using assms ne discard by (simp add: PopFront_discard)
  next
    case (Some d)
    have "NETWORK_RingBuffPopFront rb (Some d) = Some (e, rb', dst')" using assms Some by simp
    then have nz: "numberOfCell rb * cellSize rb \<noteq> 0"
      and m: "map_option
               (\<lambda>d'. (NETWORK_OK, rb\<lparr>indexOutput := indexOutput rb + cellSize rb\<rparr>, Some d'))
               (memcpy d 0 (dataBuffer rb)
                  (unat (indexOutput rb mod (numberOfCell rb * cellSize rb)))
                  (unat (cellSize rb)))
              = Some (e, rb', dst')"
      unfolding PopFront_copy [OF ne] by (simp_all split: if_splits)
    from m obtain d' where
      "memcpy d 0 (dataBuffer rb) (unat (indexOutput rb mod (numberOfCell rb * cellSize rb)))
         (unat (cellSize rb)) = Some d'"
      "e = NETWORK_OK" "dst' = Some d'"
      "rb' = rb\<lparr>indexOutput := indexOutput rb + cellSize rb\<rparr>"
      by (cases "memcpy d 0 (dataBuffer rb)
                   (unat (indexOutput rb mod (numberOfCell rb * cellSize rb)))
                   (unat (cellSize rb))") simp_all
    then show ?thesis using copy [of d d'] ne Some nz by simp
  qed
qed

lemma Front_undefined:
  "numberOfCell rb * cellSize rb = 0 \<Longrightarrow> NETWORK_RingBuffFront rb dst = None"
  by (simp add: NETWORK_RingBuffFront_def buffPointor_def)

lemma Front_empty:
  "numberOfCell rb * cellSize rb \<noteq> 0 \<Longrightarrow> indexInput rb = indexOutput rb \<Longrightarrow>
   NETWORK_RingBuffFront rb dst = Some (NETWORK_ERROR_BUFFER_SIZE, rb, dst)"
  by (simp add: NETWORK_RingBuffFront_def buffPointor_def NETWORK_RingBuffIsEmpty_def)

lemma Front_null:
  "indexInput rb \<noteq> indexOutput rb \<Longrightarrow> NETWORK_RingBuffFront rb None = None"
  by (simp add: NETWORK_RingBuffFront_def buffPointor_def NETWORK_RingBuffIsEmpty_def)

lemma Front_copy:
  "numberOfCell rb * cellSize rb \<noteq> 0 \<Longrightarrow> indexInput rb \<noteq> indexOutput rb \<Longrightarrow>
   NETWORK_RingBuffFront rb (Some d)
     = map_option (\<lambda>d'. (NETWORK_OK, rb, Some d'))
         (memcpy d 0 (dataBuffer rb)
            (unat (indexOutput rb mod (numberOfCell rb * cellSize rb))) (unat (cellSize rb)))"
  by (cases "memcpy d 0 (dataBuffer rb)
                  (unat (indexOutput rb mod (numberOfCell rb * cellSize rb))) (unat (cellSize rb))")
     (simp_all add: NETWORK_RingBuffFront_def NETWORK_RingBuffIsEmpty_def buffPointor_def)

lemma Front_frame:
  assumes "NETWORK_RingBuffFront rb dst = Some (e, rb', dst')"
  shows "rb' = rb"
proof (cases "numberOfCell rb * cellSize rb = 0")
  case True
  then show ?thesis using assms by (simp add: Front_undefined)
next
  case nz: False
  show ?thesis
  proof (cases "indexInput rb = indexOutput rb")
    case True
    then show ?thesis using assms nz by (simp add: Front_empty)
  next
    case ne: False
    show ?thesis
    proof (cases dst)
      case None
      then show ?thesis using assms ne by (simp add: Front_null)
    next
      case (Some d)
      then show ?thesis using assms nz ne
        by (cases "memcpy d 0 (dataBuffer rb)
                  (unat (indexOutput rb mod (numberOfCell rb * cellSize rb))) (unat (cellSize rb))")
           (simp_all add: Front_copy)
    qed
  qed
qed

section \<open>Construction\<close>

lemma NewRingBufferWithOverwriting_Some:
  assumes "NETWORK_NewRingBufferWithOverwriting structAlloc dataAlloc n cs ow = Some rb"
  obtains bytes where "structAlloc" "dataAlloc = Some bytes"
    "rb = \<lparr>dataBuffer = map bytes [0 ..< unat (cs * n)], numberOfCell = n, cellSize = cs,
           indexInput = 0, indexOutput = 0, isOverwriting = ow\<rparr>"
  using assms
  by (cases dataAlloc)
     (simp_all add: NETWORK_NewRingBufferWithOverwriting_def NETWORK_DeleteRingBuffer_def
        split: if_splits)

text \<open>
  C9. Whatever the two sizes, zero included, the constructor whose allocations succeed
  returns a buffer that records exactly the sizes and the flag, with both indices 0 and
  a storage of the requested \<open>unsigned int\<close> product of bytes: nothing is validated. The
  offset \<open>index % (numberOfCell * cellSize)\<close> is then defined exactly when that product
  is not zero; when it is zero \<open>Front\<close> is undefined and \<open>PushBack\<close> is either
  undefined or refuses the cell.
\<close>

theorem construction_validates_nothing:
  "\<exists>rb. NETWORK_NewRingBufferWithOverwriting True (Some bytes) n cs ow = Some rb
     \<and> numberOfCell rb = n \<and> cellSize rb = cs \<and> indexInput rb = 0 \<and> indexOutput rb = 0
     \<and> isOverwriting rb = ow \<and> length (dataBuffer rb) = unat (cs * n)
     \<and> (\<forall>index. buffPointor rb index
           = (if n * cs = 0 then None else Some (unat index mod unat (n * cs))))
     \<and> (n * cs \<noteq> 0 \<longrightarrow> 0 < unat n * unat cs)
     \<and> (n * cs = 0 \<longrightarrow>
           (\<forall>dst. NETWORK_RingBuffFront rb dst = None)
         \<and> (\<forall>d. NETWORK_RingBuffPushBack rb d = None
                \<or> NETWORK_RingBuffPushBack rb d = Some (NETWORK_ERROR_BUFFER_SIZE, rb)))"
proof -
  define rb where "rb = \<lparr>dataBuffer = map bytes [0 ..< unat (cs * n)], numberOfCell = n,
    cellSize = cs, indexInput = 0, indexOutput = 0, isOverwriting = ow\<rparr>"
  have new: "NETWORK_NewRingBufferWithOverwriting True (Some bytes) n cs ow = Some rb"
    by (simp add: NETWORK_NewRingBufferWithOverwriting_def rb_def)
  have fields: "numberOfCell rb = n" "cellSize rb = cs" "indexInput rb = 0" "indexOutput rb = 0"
    "isOverwriting rb = ow" "length (dataBuffer rb) = unat (cs * n)"
    by (simp_all add: rb_def)
  have off: "buffPointor rb index
      = (if n * cs = 0 then None else Some (unat index mod unat (n * cs)))" for index
    by (simp add: buffPointor_def fields unat_mod)
  have front: "NETWORK_RingBuffFront rb dst = None" if "n * cs = 0" for dst
    using that by (simp add: Front_undefined fields)
  have push: "NETWORK_RingBuffPushBack rb d = None
      \<or> NETWORK_RingBuffPushBack rb d = Some (NETWORK_ERROR_BUFFER_SIZE, rb)"
    if z: "n * cs = 0" for d
  proof (cases "NETWORK_RingBuffPushBack rb d")
    case None
    then show ?thesis by simp
  next
    case (Some r)
    obtain e rb' where r: "r = (e, rb')" by (cases r)
    from Some [unfolded r] show ?thesis
      by (cases rule: PushBack_cases) (use z Some r fields in simp_all)
  qed
  have number: "0 < unat n * unat cs" if "n * cs \<noteq> 0"
  proof -
    have "n \<noteq> 0" "cs \<noteq> 0" using that by auto
    then show ?thesis by (simp add: unat_gt_0)
  qed
  show ?thesis
    using new fields off number front push by blast
qed

theorem construction_validates_nothing_witness:
  "(\<exists>rb. NETWORK_NewRingBufferWithOverwriting True (Some zero_bytes) 0 4 1 = Some rb
      \<and> numberOfCell rb = 0 \<and> cellSize rb = 4 \<and> indexInput rb = 0 \<and> indexOutput rb = 0
      \<and> isOverwriting rb = 1 \<and> dataBuffer rb = []
      \<and> buffPointor rb 12 = None
      \<and> NETWORK_RingBuffFront rb (Some dest_4) = None
      \<and> NETWORK_RingBuffPushBack rb cell_1 = None)
   \<and> (\<exists>rb. NETWORK_NewRingBufferWithOverwriting True (Some zero_bytes) 2 4 1 = Some rb
      \<and> numberOfCell rb = 2 \<and> cellSize rb = 4 \<and> indexInput rb = 0 \<and> indexOutput rb = 0
      \<and> isOverwriting rb = 1 \<and> length (dataBuffer rb) = 8
      \<and> buffPointor rb 12 = Some 4)"
proof -
  from construction_validates_nothing [of zero_bytes 0 4 1]
  obtain rb where rb: "NETWORK_NewRingBufferWithOverwriting True (Some zero_bytes) 0 4 1 = Some rb"
    and f: "numberOfCell rb = 0" "cellSize rb = 4" "indexInput rb = 0" "indexOutput rb = 0"
      "isOverwriting rb = 1" "length (dataBuffer rb) = unat (4 * 0 :: uint)"
    and off: "\<forall>index. buffPointor rb index
           = (if (0::uint) * 4 = 0 then None else Some (unat index mod unat (0 * 4 :: uint)))"
    and "(0::uint) * 4 \<noteq> 0 \<longrightarrow> 0 < unat (0::uint) * unat (4::uint)"
    and z: "(0::uint) * 4 = 0 \<longrightarrow>
           (\<forall>dst. NETWORK_RingBuffFront rb dst = None)
         \<and> (\<forall>d. NETWORK_RingBuffPushBack rb d = None
                \<or> NETWORK_RingBuffPushBack rb d = Some (NETWORK_ERROR_BUFFER_SIZE, rb))"
    by blast
  have "NETWORK_RingBuffPushBack rb cell_1 = None"
    using f by (simp add: NETWORK_RingBuffPushBack_def NETWORK_RingBuffGetFreeCellNb_def
        buffPointor_def)
  then have none: "\<exists>rb. NETWORK_NewRingBufferWithOverwriting True (Some zero_bytes) 0 4 1 = Some rb
      \<and> numberOfCell rb = 0 \<and> cellSize rb = 4 \<and> indexInput rb = 0 \<and> indexOutput rb = 0
      \<and> isOverwriting rb = 1 \<and> dataBuffer rb = []
      \<and> buffPointor rb 12 = None
      \<and> NETWORK_RingBuffFront rb (Some dest_4) = None
      \<and> NETWORK_RingBuffPushBack rb cell_1 = None"
    using rb f off z by auto
  from construction_validates_nothing [of zero_bytes 2 4 1]
  obtain rb' where rb': "NETWORK_NewRingBufferWithOverwriting True (Some zero_bytes) 2 4 1 = Some rb'"
    and f': "numberOfCell rb' = 2" "cellSize rb' = 4" "indexInput rb' = 0" "indexOutput rb' = 0"
      "isOverwriting rb' = 1" "length (dataBuffer rb') = unat (4 * 2 :: uint)"
    and off': "\<forall>index. buffPointor rb' index
           = (if (2::uint) * 4 = 0 then None else Some (unat index mod unat (2 * 4 :: uint)))"
    by blast
  have "buffPointor rb' 12 = Some 4" using off' by simp
  then have some: "\<exists>rb. NETWORK_NewRingBufferWithOverwriting True (Some zero_bytes) 2 4 1 = Some rb
      \<and> numberOfCell rb = 2 \<and> cellSize rb = 4 \<and> indexInput rb = 0 \<and> indexOutput rb = 0
      \<and> isOverwriting rb = 1 \<and> length (dataBuffer rb) = 8
      \<and> buffPointor rb 12 = Some 4"
    using rb' f' by auto
  show ?thesis using none some by (rule conjI)
qed

text \<open>
  C10. The plain constructor returns, for every pair of sizes and every outcome of the
  two allocations, exactly what the overwriting constructor returns with the flag 0.
\<close>

theorem NewRingBuffer_is_WithOverwriting_0:
  "NETWORK_NewRingBuffer structAlloc dataAlloc n cs
     = NETWORK_NewRingBufferWithOverwriting structAlloc dataAlloc n cs 0"
  by (simp add: NETWORK_NewRingBuffer_def)

section \<open>The occupied byte count\<close>

subsection \<open>Arithmetic of the \<open>unsigned int\<close> counters\<close>

lemma unat_capacity:
  fixes n cs :: uint
  assumes "unat n * unat cs < 2 ^ 32"
  shows "unat (n * cs) = unat n * unat cs"
  using assms unat_mult_lem [of n cs] by simp

lemma free_cells_zero_iff:
  fixes n cs occ :: uint
  assumes "0 < cs" "unat n * unat cs < 2 ^ 32" "unat occ \<le> unat n * unat cs"
    "unat cs dvd unat occ"
  shows "(n - occ div cs = 0) = (occ = n * cs)"
proof -
  have c: "0 < unat cs" using assms(1) by (simp add: word_less_nat_alt)
  have "(n - occ div cs = 0) = (n = occ div cs)" by simp
  also have "\<dots> = (unat n = unat occ div unat cs)"
    by (simp add: word_unat_eq_iff unat_div)
  also have "\<dots> = (unat occ = unat n * unat cs)"
    using c assms(4) by (auto simp: dvd_div_eq_iff)
  also have "\<dots> = (occ = n * cs)"
    by (simp add: word_unat_eq_iff unat_capacity [OF assms(2)])
  finally show ?thesis .
qed

lemma occupied_after_push:
  fixes n cs occ :: uint
  assumes "unat n * unat cs < 2 ^ 32" "unat occ \<le> unat n * unat cs" "unat cs dvd unat occ"
    "occ \<noteq> n * cs"
  shows "unat (occ + cs) \<le> unat n * unat cs \<and> unat cs dvd unat (occ + cs)"
proof -
  have ne: "unat occ \<noteq> unat n * unat cs"
    using assms(4) unat_capacity [OF assms(1)] by (metis word_unat_eq_iff)
  obtain k where k: "unat occ = unat cs * k" using assms(3) by (auto simp: dvd_def)
  have "unat cs * k < unat cs * unat n" using assms(2) ne k by (simp add: mult.commute)
  then have "k < unat n" by simp
  then have "Suc k \<le> unat n" by simp
  then have "unat cs * Suc k \<le> unat cs * unat n" by (rule mult_le_mono2)
  then have le: "unat occ + unat cs \<le> unat n * unat cs" using k by (simp add: mult.commute)
  then have "unat (occ + cs) = unat occ + unat cs"
    using assms(1) unat_add_lem [of occ cs] by simp
  then show ?thesis using le assms(3) by simp
qed

lemma occupied_after_pop:
  fixes n cs occ :: uint
  assumes "unat occ \<le> unat n * unat cs" "unat cs dvd unat occ" "occ \<noteq> 0"
  shows "unat (occ - cs) \<le> unat n * unat cs \<and> unat cs dvd unat (occ - cs)"
proof -
  have "0 < unat occ" using assms(3) by (simp add: unat_gt_0)
  then have "unat cs \<le> unat occ" using assms(2) by (simp add: dvd_imp_le)
  then have "cs \<le> occ" by (simp add: word_le_nat_alt)
  then have "unat (occ - cs) = unat occ - unat cs" by (rule unat_sub)
  then show ?thesis using assms(1,2) by (simp add: dvd_diff_nat)
qed

subsection \<open>The invariant\<close>

lemma PushBack_sizes:
  assumes "NETWORK_RingBuffPushBack rb d = Some (e, rb')"
  shows "numberOfCell rb' = numberOfCell rb \<and> cellSize rb' = cellSize rb
    \<and> isOverwriting rb' = isOverwriting rb"
  using assms by (cases rule: PushBack_cases) simp_all

lemma PopFront_sizes:
  assumes "NETWORK_RingBuffPopFront rb dst = Some (e, rb', dst')"
  shows "numberOfCell rb' = numberOfCell rb \<and> cellSize rb' = cellSize rb
    \<and> isOverwriting rb' = isOverwriting rb \<and> dataBuffer rb' = dataBuffer rb"
  using assms by (cases rule: PopFront_cases) simp_all

lemma PushBack_occupancy_ok:
  assumes p: "NETWORK_RingBuffPushBack rb d = Some (e, rb')" and ok: "occupancy_ok rb"
  shows "occupancy_ok rb'"
proof -
  have fz: "(numberOfCell rb - occupied rb div cellSize rb = 0)
      = (occupied rb = numberOfCell rb * cellSize rb)"
    using ok by (intro free_cells_zero_iff) (simp_all add: occupancy_ok_def)
  from p show ?thesis
  proof (cases rule: PushBack_cases)
    case full
    then show ?thesis using ok by simp
  next
    case (room buf)
    have "occupied rb' = occupied rb + cellSize rb" using room(6) by (simp add: occupied_def)
    moreover have "occupied rb \<noteq> numberOfCell rb * cellSize rb" using room(3) fz by simp
    ultimately show ?thesis
      using ok occupied_after_push [of "numberOfCell rb" "cellSize rb" "occupied rb"] room(6)
      by (simp add: occupancy_ok_def)
  next
    case (over buf)
    have "occupied rb' = occupied rb" using over(7) by (simp add: occupied_def)
    then show ?thesis using ok over(7) by (simp add: occupancy_ok_def)
  qed
qed

lemma PopFront_occupancy_ok:
  assumes p: "NETWORK_RingBuffPopFront rb dst = Some (e, rb', dst')" and ok: "occupancy_ok rb"
  shows "occupancy_ok rb'"
proof -
  have adv: "occupancy_ok rb'"
    if ne: "indexInput rb \<noteq> indexOutput rb"
      and r: "rb' = rb\<lparr>indexOutput := indexOutput rb + cellSize rb\<rparr>"
  proof -
    have "occupied rb' = occupied rb - cellSize rb" using r by (simp add: occupied_def)
    moreover have "occupied rb \<noteq> 0" using ne by (simp add: occupied_def)
    ultimately show ?thesis
      using ok occupied_after_pop [of "occupied rb" "numberOfCell rb" "cellSize rb"] r
      by (simp add: occupancy_ok_def)
  qed
  from p show ?thesis
  proof (cases rule: PopFront_cases)
    case empty
    then show ?thesis using ok by simp
  next
    case discard
    then show ?thesis using adv by simp
  next
    case (copy d d')
    then show ?thesis using adv by simp
  qed
qed

lemma step_occupancy_ok:
  assumes s: "step rb x = Some rb'" and ok: "occupancy_ok rb"
  shows "occupancy_ok rb'"
proof (cases x)
  case (PushBack d)
  then obtain e where "NETWORK_RingBuffPushBack rb d = Some (e, rb')" using s by auto
  then show ?thesis using ok by (rule PushBack_occupancy_ok)
next
  case (PopFront dst)
  then obtain e dst' where "NETWORK_RingBuffPopFront rb dst = Some (e, rb', dst')"
    using s by auto
  then show ?thesis using ok by (rule PopFront_occupancy_ok)
next
  case (Front dst)
  then obtain e dst' where "NETWORK_RingBuffFront rb dst = Some (e, rb', dst')"
    using s by auto
  then have "rb' = rb" by (rule Front_frame)
  then show ?thesis using ok by simp
qed

lemma step_sizes:
  assumes s: "step rb x = Some rb'"
  shows "numberOfCell rb' = numberOfCell rb \<and> cellSize rb' = cellSize rb"
proof (cases x)
  case (PushBack d)
  then obtain e where "NETWORK_RingBuffPushBack rb d = Some (e, rb')" using s by auto
  then show ?thesis using PushBack_sizes by blast
next
  case (PopFront dst)
  then obtain e dst' where "NETWORK_RingBuffPopFront rb dst = Some (e, rb', dst')"
    using s by auto
  then show ?thesis using PopFront_sizes by blast
next
  case (Front dst)
  then obtain e dst' where "NETWORK_RingBuffFront rb dst = Some (e, rb', dst')"
    using s by auto
  then have "rb' = rb" by (rule Front_frame)
  then show ?thesis by simp
qed

lemma run_occupancy_ok:
  "run rb xs = Some rb' \<Longrightarrow> occupancy_ok rb \<Longrightarrow>
   occupancy_ok rb' \<and> numberOfCell rb' = numberOfCell rb \<and> cellSize rb' = cellSize rb"
proof (induction xs arbitrary: rb)
  case Nil
  then show ?case by simp
next
  case (Cons x xs)
  show ?case
  proof (cases "step rb x")
    case None
    then show ?thesis using Cons.prems(1) by simp
  next
    case (Some rb1)
    then have r: "run rb1 xs = Some rb'" using Cons.prems(1) by simp
    show ?thesis
      using Cons.IH [OF r step_occupancy_ok [OF Some Cons.prems(2)]] step_sizes [OF Some]
      by simp
  qed
qed

section \<open>Single calls on a well-sized buffer\<close>

lemma wellSized_capacity:
  assumes "wellSized rb"
  shows "unat (numberOfCell rb * cellSize rb) = unat (numberOfCell rb) * unat (cellSize rb)"
    and "numberOfCell rb * cellSize rb \<noteq> 0"
    and "cellSize rb \<noteq> 0"
    and "(numberOfCell rb * cellSize rb) div cellSize rb = numberOfCell rb"
proof -
  have fits: "unat (numberOfCell rb) * unat (cellSize rb) < 2 ^ 32"
    and n: "0 < numberOfCell rb" and c: "0 < cellSize rb"
    using assms by (simp_all add: wellSized_def)
  show cap: "unat (numberOfCell rb * cellSize rb) = unat (numberOfCell rb) * unat (cellSize rb)"
    using fits by (rule unat_capacity)
  have "0 < unat (numberOfCell rb) * unat (cellSize rb)"
    using n c by (simp add: word_less_nat_alt)
  then have "unat (numberOfCell rb * cellSize rb) \<noteq> 0" using cap by simp
  then show "numberOfCell rb * cellSize rb \<noteq> 0" by (simp add: unat_eq_zero)
  show "cellSize rb \<noteq> 0" using c by simp
  show "(numberOfCell rb * cellSize rb) div cellSize rb = numberOfCell rb"
    using c fits by (simp add: word_div_mult)
qed

text \<open>A cell that starts at the offset of an index that counts whole cells lies in the storage.\<close>

lemma cell_inside_storage:
  assumes w: "wellSized rb" and a: "countsCells rb index"
  shows "unat (index mod (numberOfCell rb * cellSize rb)) + unat (cellSize rb)
    \<le> length (dataBuffer rb)"
proof -
  let ?C = "unat (cellSize rb)" and ?N = "unat (numberOfCell rb)"
  let ?off = "unat index mod (?N * ?C)"
  have c: "0 < ?C" and n: "0 < ?N"
    using w by (simp_all add: wellSized_def word_less_nat_alt)
  have off: "unat (index mod (numberOfCell rb * cellSize rb)) = ?off"
    by (simp add: unat_mod wellSized_capacity(1) [OF w])
  have "?C dvd ?off" using a by (simp add: countsCells_def dvd_mod)
  then obtain q where q: "?off = ?C * q" by (auto simp: dvd_def)
  have "?off < ?N * ?C" using c n by simp
  then have "?C * q < ?C * ?N" using q by (simp add: mult.commute)
  then have "q < ?N" by simp
  then have "Suc q \<le> ?N" by simp
  then have "?C * Suc q \<le> ?C * ?N" by (rule mult_le_mono2)
  then have "?off + ?C \<le> ?N * ?C" using q by (simp add: mult.commute)
  then show ?thesis using off w by (simp add: wellSized_def)
qed

text \<open>
  C3. On a well-sized buffer that does not overwrite and whose occupied byte count is
  \<open>cellCount \<times> cellSize\<close>, \<open>PushBack\<close> returns \<open>NETWORK_ERROR_BUFFER_SIZE\<close> (the
  code of a full buffer) and the buffer it leaves is the buffer it was given: both
  indices and every byte of the storage are unchanged.
\<close>

theorem PushBack_full_is_refused:
  assumes "wellSized rb" and "isOverwriting rb = 0"
    and "occupied rb = numberOfCell rb * cellSize rb"
  shows "NETWORK_RingBuffPushBack rb pNewData = Some (NETWORK_ERROR_BUFFER_SIZE, rb)"
  using assms wellSized_capacity(3,4) [OF assms(1)]
  by (intro PushBack_full) simp_all

theorem PushBack_full_is_refused_witness:
  "push_cells (buffer_2x4 0) [cell_1, cell_2]
     = Some ([NETWORK_OK, NETWORK_OK], held_2x4 (cell_1 @ cell_2) 8 0 0)
   \<and> NETWORK_RingBuffPushBack (held_2x4 (cell_1 @ cell_2) 8 0 0) cell_3
     = Some (NETWORK_ERROR_BUFFER_SIZE, held_2x4 (cell_1 @ cell_2) 8 0 0)
   \<and> pop_cells (held_2x4 (cell_1 @ cell_2) 8 0 0) [Some dest_4, Some dest_4]
     = Some ([NETWORK_OK, NETWORK_OK], held_2x4 (cell_1 @ cell_2) 8 8 0,
             [Some cell_1, Some cell_2])"
proof -
  let ?full = "held_2x4 (cell_1 @ cell_2) 8 0 0"
  have w: "wellSized ?full" by (simp add: wellSized_def cell_1_def cell_2_def)
  have o: "isOverwriting ?full = 0" by simp
  have f: "occupied ?full = numberOfCell ?full * cellSize ?full" by (simp add: occupied_def)
  have push: "push_cells (buffer_2x4 0) [cell_1, cell_2] = Some ([NETWORK_OK, NETWORK_OK], ?full)"
    by code_simp
  have pop: "pop_cells ?full [Some dest_4, Some dest_4]
     = Some ([NETWORK_OK, NETWORK_OK], held_2x4 (cell_1 @ cell_2) 8 8 0,
             [Some cell_1, Some cell_2])"
    by code_simp
  show ?thesis
    by (intro conjI push pop PushBack_full_is_refused [OF w o f])
qed

text \<open>
  C4, amended. On a well-sized buffer that overwrites, whose occupied byte count is
  \<open>cellCount \<times> cellSize\<close> and whose \<open>indexInput\<close> is a multiple of \<open>cellSize\<close> (as it is
  until the counter passes \<open>2 ^ 32\<close>), \<open>PushBack\<close> of a block of at least \<open>cellSize\<close>
  bytes succeeds: \<open>indexOutput\<close> is advanced by \<open>cellSize\<close>, the \<open>cellSize\<close> bytes of the
  new cell replace the bytes of the storage at the offset
  \<open>indexInput mod (cellCount \<times> cellSize)\<close>, and \<open>indexInput\<close> is advanced by \<open>cellSize\<close>.
\<close>

theorem PushBack_full_overwrites:
  assumes "wellSized rb" and "countsCells rb (indexInput rb)" and "isOverwriting rb \<noteq> 0"
    and "occupied rb = numberOfCell rb * cellSize rb"
    and "unat (cellSize rb) \<le> length pNewData"
  shows "NETWORK_RingBuffPushBack rb pNewData
    = Some (NETWORK_OK,
        rb\<lparr>indexOutput := indexOutput rb + cellSize rb,
           dataBuffer :=
             take (unat (indexInput rb mod (numberOfCell rb * cellSize rb))) (dataBuffer rb)
             @ take (unat (cellSize rb)) pNewData
             @ drop (unat (indexInput rb mod (numberOfCell rb * cellSize rb))
                     + unat (cellSize rb)) (dataBuffer rb),
           indexInput := indexInput rb + cellSize rb\<rparr>)"
proof -
  note cap = wellSized_capacity [OF assms(1)]
  have fz: "numberOfCell rb - occupied rb div cellSize rb = 0"
    using assms(4) cap(4) by simp
  have "memcpy (dataBuffer rb) (unat (indexInput rb mod (numberOfCell rb * cellSize rb)))
          pNewData 0 (unat (cellSize rb))
        = Some (take (unat (indexInput rb mod (numberOfCell rb * cellSize rb))) (dataBuffer rb)
             @ take (unat (cellSize rb)) pNewData
             @ drop (unat (indexInput rb mod (numberOfCell rb * cellSize rb))
                     + unat (cellSize rb)) (dataBuffer rb))"
    using cell_inside_storage [OF assms(1,2)] assms(5) by (simp add: memcpy_def)
  then show ?thesis
    using PushBack_over [OF cap(3) fz assms(3), of pNewData] cap(2) by simp
qed

theorem PushBack_full_overwrites_witness:
  "push_cells (buffer_2x4 1) [cell_1, cell_2]
     = Some ([NETWORK_OK, NETWORK_OK], held_2x4 (cell_1 @ cell_2) 8 0 1)
   \<and> NETWORK_RingBuffPushBack (held_2x4 (cell_1 @ cell_2) 8 0 1) cell_3
     = Some (NETWORK_OK, held_2x4 (cell_3 @ cell_2) 12 4 1)
   \<and> push_then_pop (buffer_2x4 1) [cell_1, cell_2, cell_3] [Some dest_4, Some dest_4]
     = Some ([NETWORK_OK, NETWORK_OK, NETWORK_OK], [NETWORK_OK, NETWORK_OK],
             [Some cell_2, Some cell_3])"
proof -
  let ?full = "held_2x4 (cell_1 @ cell_2) 8 0 1"
  have w: "wellSized ?full" by (simp add: wellSized_def cell_1_def cell_2_def)
  have a: "countsCells ?full (indexInput ?full)" by (simp add: countsCells_def)
  have o: "isOverwriting ?full \<noteq> 0" by simp
  have f: "occupied ?full = numberOfCell ?full * cellSize ?full" by (simp add: occupied_def)
  have l: "unat (cellSize ?full) \<le> length cell_3" by (simp add: cell_3_def)
  have push: "push_cells (buffer_2x4 1) [cell_1, cell_2] = Some ([NETWORK_OK, NETWORK_OK], ?full)"
    by code_simp
  have all: "push_then_pop (buffer_2x4 1) [cell_1, cell_2, cell_3] [Some dest_4, Some dest_4]
     = Some ([NETWORK_OK, NETWORK_OK, NETWORK_OK], [NETWORK_OK, NETWORK_OK],
             [Some cell_2, Some cell_3])"
    by code_simp
  have third: "NETWORK_RingBuffPushBack ?full cell_3
      = Some (NETWORK_OK, held_2x4 (cell_3 @ cell_2) 12 4 1)"
    using PushBack_full_overwrites [OF w a o f l]
    by (simp add: held_2x4_def cell_1_def cell_2_def cell_3_def)
  show ?thesis
    by (intro conjI push third all)
qed

section \<open>Reading the oldest cell\<close>

lemma memcpy_from_storage:
  assumes "wellSized rb" and "countsCells rb index" and "unat (cellSize rb) \<le> length dst"
  shows "memcpy dst 0 (dataBuffer rb) (unat (index mod (numberOfCell rb * cellSize rb)))
           (unat (cellSize rb))
         = Some (cellAt (dataBuffer rb) (unat (index mod (numberOfCell rb * cellSize rb)))
                   (unat (cellSize rb))
                 @ drop (unat (cellSize rb)) dst)"
  using cell_inside_storage [OF assms(1,2)] assms(3) by (simp add: memcpy_def cellAt_def)





text \<open>
  C6. \<open>Front\<close> on the empty buffer of two cells of four bytes: the destination and the
  buffer are left as they were, but the code returned is \<open>NETWORK_ERROR_BUFFER_SIZE\<close>,
  the code \<open>PushBack\<close> gives for a full buffer, where \<open>PopFront\<close> on the same buffer
  returns \<open>NETWORK_ERROR_BUFFER_EMPTY\<close>.
\<close>

theorem Front_empty_returns_BUFFER_SIZE:
  "NETWORK_RingBuffFront (buffer_2x4 0) (Some dest_4)
     = Some (NETWORK_ERROR_BUFFER_SIZE, buffer_2x4 0, Some dest_4)
   \<and> NETWORK_RingBuffPopFront (buffer_2x4 0) (Some dest_4)
     = Some (NETWORK_ERROR_BUFFER_EMPTY, buffer_2x4 0, Some dest_4)
   \<and> NETWORK_ERROR_BUFFER_SIZE \<noteq> NETWORK_ERROR_BUFFER_EMPTY"
  by (simp add: Front_empty PopFront_empty buffer_2x4_def)

section \<open>The counters wrap\<close>

lemma offset_in_2x4:
  fixes x :: uint
  shows "unat ((4 * x) mod 8) = 0 \<or> unat ((4 * x) mod 8) = 4"
proof -
  have "unat (4 * x) = (4 * unat x) mod 2 ^ 32"
    by (simp add: unat_word_ariths)
  then have "unat ((4 * x) mod 8) = ((4 * unat x) mod 2 ^ 32) mod 8"
    by (simp add: unat_mod)
  also have "\<dots> = (4 * unat x) mod 8"
    by (rule mod_mod_cancel) simp
  finally show ?thesis by presburger
qed

lemma push_pop_round:
  fixes x :: uint
  shows "run (idle_2x4 (4 * x)) [PushBack zero_cell, PopFront None]
    = Some (idle_2x4 (4 * (x + 1)))"
proof -
  let ?rb = "idle_2x4 (4 * x)"
  have free: "numberOfCell ?rb - occupied ?rb div cellSize ?rb \<noteq> 0"
    by (simp add: idle_2x4_def occupied_def)
  have m: "memcpy (dataBuffer ?rb) (unat (indexInput ?rb mod (numberOfCell ?rb * cellSize ?rb)))
      zero_cell 0 (unat (cellSize ?rb)) = Some (dataBuffer ?rb)"
    using offset_in_2x4 [of x] by (auto simp: idle_2x4_def memcpy_def zero_cell_def)
  have push: "NETWORK_RingBuffPushBack ?rb zero_cell
      = Some (NETWORK_OK, ?rb\<lparr>indexInput := 4 * x + 4\<rparr>)"
    using PushBack_room [OF _ free, of zero_cell] m by (simp add: idle_2x4_def)
  have ne: "indexInput (?rb\<lparr>indexInput := 4 * x + 4\<rparr>) \<noteq> indexOutput (?rb\<lparr>indexInput := 4 * x + 4\<rparr>)"
    by (simp add: idle_2x4_def)
  have pop: "NETWORK_RingBuffPopFront (?rb\<lparr>indexInput := 4 * x + 4\<rparr>) None
      = Some (NETWORK_OK, idle_2x4 (4 * (x + 1)), None)"
    using PopFront_discard [OF ne] by (simp add: idle_2x4_def algebra_simps)
  show ?thesis by (simp add: push pop)
qed

lemma run_append:
  "run rb (xs @ ys) = Option.bind (run rb xs) (\<lambda>rb'. run rb' ys)"
  by (induction xs arbitrary: rb) (simp_all split: Option.bind_split)

lemma pushes_simps:
  "pushes 0 c = []" "pushes (Suc k) c = PushBack c # pushes k c"
  "pushes (j + k) c = pushes j c @ pushes k c"
  by (simp_all add: pushes_def replicate_add)

lemma pushes_few:
  "pushes (Suc 0) c = [PushBack c]" "pushes 2 c = [PushBack c, PushBack c]"
  by (simp_all add: pushes_def numeral_2_eq_2)

lemma unat_times_small:
  fixes a x :: uint
  assumes "unat a * unat x < 2 ^ 32"
  shows "unat (a * x) = unat a * unat x"
  using assms by (simp add: unat_mult_lem [THEN iffD1])

lemma unat_Suc_word:
  fixes x :: uint
  assumes "unat x < 4294967295"
  shows "unat (x + 1) = Suc (unat x)"
  using assms unat_add_lem [of x 1] by simp

lemma push_pop_rounds_reach:
  "run (idle_2x4 (4 * x)) (push_pop_rounds k) = Some (idle_2x4 (4 * (x + of_nat k)))"
proof (induction k arbitrary: x)
  case 0
  then show ?case by (simp add: push_pop_rounds_def)
next
  case (Suc k)
  have "push_pop_rounds (Suc k) = [PushBack zero_cell, PopFront None] @ push_pop_rounds k"
    by (simp add: push_pop_rounds_def)
  then have "run (idle_2x4 (4 * x)) (push_pop_rounds (Suc k))
      = run (idle_2x4 (4 * (x + 1))) (push_pop_rounds k)"
    using push_pop_round [of x] by (simp only: run_append) simp
  also have "\<dots> = Some (idle_2x4 (4 * (x + 1 + of_nat k)))"
    by (rule Suc.IH)
  finally show ?case by (simp add: algebra_simps)
qed

text \<open>
  C8, as stated, fails. The buffer of two cells of four bytes is constructed and a cell
  is pushed and popped \<open>2 ^ 30 - 1\<close> times, which leaves both indices at
  \<open>2 ^ 32 - 4\<close>; the next \<open>PushBack\<close> succeeds and leaves \<open>indexInput\<close> at 0, smaller
  than before.
\<close>

theorem indexInput_wraps:
  "NETWORK_NewRingBuffer True (Some zero_bytes) 2 4 = Some (idle_2x4 0)
   \<and> run (idle_2x4 0) (push_pop_rounds 1073741823) = Some (idle_2x4 0xFFFFFFFC)
   \<and> NETWORK_RingBuffPushBack (idle_2x4 0xFFFFFFFC) zero_cell
     = Some (NETWORK_OK, held_2x4 [0, 0, 0, 0, 0, 0, 0, 0] 0 0xFFFFFFFC 0)
   \<and> indexInput (held_2x4 [0, 0, 0, 0, 0, 0, 0, 0] 0 0xFFFFFFFC 0)
     < indexInput (idle_2x4 0xFFFFFFFC)"
proof -
  have new: "NETWORK_NewRingBuffer True (Some zero_bytes) 2 4 = Some (idle_2x4 0)"
    by (simp add: NETWORK_NewRingBuffer_def NETWORK_NewRingBufferWithOverwriting_def
        zero_bytes_def idle_2x4_def upt_rec)
  have "run (idle_2x4 (4 * 0)) (push_pop_rounds 1073741823)
      = Some (idle_2x4 (4 * (0 + of_nat 1073741823)))"
    by (rule push_pop_rounds_reach)
  then have reach: "run (idle_2x4 0) (push_pop_rounds 1073741823) = Some (idle_2x4 0xFFFFFFFC)"
    by simp
  have push: "NETWORK_RingBuffPushBack (idle_2x4 0xFFFFFFFC) zero_cell
     = Some (NETWORK_OK, held_2x4 [0, 0, 0, 0, 0, 0, 0, 0] 0 0xFFFFFFFC 0)"
    by (simp add: NETWORK_RingBuffPushBack_def NETWORK_RingBuffGetFreeCellNb_def
        buffPointor_def memcpy_def idle_2x4_def held_2x4_def zero_cell_def)
  have less: "indexInput (held_2x4 [0, 0, 0, 0, 0, 0, 0, 0] 0 0xFFFFFFFC 0)
      < indexInput (idle_2x4 0xFFFFFFFC)"
    by (simp add: idle_2x4_def)
  show ?thesis by (intro conjI new reach push less)
qed


lemma word_le_add_no_wrap:
  fixes a b :: uint
  assumes "unat a + unat b < 2 ^ 32"
  shows "a \<le> a + b"
  using assms no_olen_add_nat [of a b] by simp

text \<open>
  C8, amended. The counters are \<open>unsigned int\<close> and are never reduced modulo the
  capacity, but their additions wrap at \<open>2 ^ 32\<close>. A successful \<open>PushBack\<close> adds
  \<open>cellSize\<close> to \<open>indexInput\<close> modulo \<open>2 ^ 32\<close>, leaves \<open>indexOutput\<close> as it was or adds
  \<open>cellSize\<close> to it modulo \<open>2 ^ 32\<close>, and writes the storage at the offset
  \<open>indexInput mod (cellCount \<times> cellSize)\<close>; a refused one changes nothing. \<open>PopFront\<close>
  leaves \<open>indexInput\<close> and the storage as they were; a successful one adds \<open>cellSize\<close>
  to \<open>indexOutput\<close> modulo \<open>2 ^ 32\<close> and, given a destination, reads the storage at the
  offset \<open>indexOutput mod (cellCount \<times> cellSize)\<close>. \<open>Front\<close> changes nothing and reads
  the storage at that same offset. A counter to which \<open>cellSize\<close> is added does not
  decrease as long as the sum stays below \<open>2 ^ 32\<close>.
\<close>

theorem counters_advance_modulo:
  "(NETWORK_RingBuffPushBack rb pNewData = Some (e, rb') \<longrightarrow>
      (e = NETWORK_OK \<longrightarrow>
         indexInput rb' = indexInput rb + cellSize rb
         \<and> (indexOutput rb' = indexOutput rb \<or> indexOutput rb' = indexOutput rb + cellSize rb)
         \<and> memcpy (dataBuffer rb) (unat (indexInput rb mod (numberOfCell rb * cellSize rb)))
              pNewData 0 (unat (cellSize rb)) = Some (dataBuffer rb')
         \<and> (unat (indexInput rb) + unat (cellSize rb) < 2 ^ 32 \<longrightarrow>
              indexInput rb \<le> indexInput rb')
         \<and> (unat (indexOutput rb) + unat (cellSize rb) < 2 ^ 32 \<longrightarrow>
              indexOutput rb \<le> indexOutput rb'))
      \<and> (e \<noteq> NETWORK_OK \<longrightarrow> rb' = rb))
   \<and> (NETWORK_RingBuffPopFront rb pPopData = Some (e, rb', pPopData') \<longrightarrow>
      indexInput rb' = indexInput rb \<and> dataBuffer rb' = dataBuffer rb
      \<and> (e = NETWORK_OK \<longrightarrow>
         indexOutput rb' = indexOutput rb + cellSize rb
         \<and> (unat (indexOutput rb) + unat (cellSize rb) < 2 ^ 32 \<longrightarrow>
              indexOutput rb \<le> indexOutput rb')
         \<and> (\<forall>dst. pPopData = Some dst \<longrightarrow>
              memcpy dst 0 (dataBuffer rb)
                (unat (indexOutput rb mod (numberOfCell rb * cellSize rb)))
                (unat (cellSize rb)) = pPopData'))
      \<and> (e \<noteq> NETWORK_OK \<longrightarrow> rb' = rb))
   \<and> (NETWORK_RingBuffFront rb pFrontData = Some (e, rb', pFrontData') \<longrightarrow>
      rb' = rb
      \<and> (e = NETWORK_OK \<longrightarrow>
         (\<exists>dst. pFrontData = Some dst
            \<and> memcpy dst 0 (dataBuffer rb)
                (unat (indexOutput rb mod (numberOfCell rb * cellSize rb)))
                (unat (cellSize rb)) = pFrontData')))"
proof (intro conjI impI)
  assume p: "NETWORK_RingBuffPushBack rb pNewData = Some (e, rb')"
  {
    assume ok: "e = NETWORK_OK"
    from p have c: "indexInput rb' = indexInput rb + cellSize rb
        \<and> (indexOutput rb' = indexOutput rb \<or> indexOutput rb' = indexOutput rb + cellSize rb)
        \<and> memcpy (dataBuffer rb) (unat (indexInput rb mod (numberOfCell rb * cellSize rb)))
              pNewData 0 (unat (cellSize rb)) = Some (dataBuffer rb')"
      by (cases rule: PushBack_cases) (use ok in simp_all)
    from c show "indexInput rb' = indexInput rb + cellSize rb" by simp
    from c show "indexOutput rb' = indexOutput rb \<or> indexOutput rb' = indexOutput rb + cellSize rb"
      by simp
    from c show "memcpy (dataBuffer rb) (unat (indexInput rb mod (numberOfCell rb * cellSize rb)))
              pNewData 0 (unat (cellSize rb)) = Some (dataBuffer rb')" by simp
    {
      assume "unat (indexInput rb) + unat (cellSize rb) < 2 ^ 32"
      then show "indexInput rb \<le> indexInput rb'"
        using c word_le_add_no_wrap [of "indexInput rb" "cellSize rb"] by simp
    }
    {
      assume "unat (indexOutput rb) + unat (cellSize rb) < 2 ^ 32"
      then show "indexOutput rb \<le> indexOutput rb'"
        using c word_le_add_no_wrap [of "indexOutput rb" "cellSize rb"] by auto
    }
  }
  {
    assume "e \<noteq> NETWORK_OK"
    with p show "rb' = rb" by (cases rule: PushBack_cases) simp_all
  }
next
  assume p: "NETWORK_RingBuffPopFront rb pPopData = Some (e, rb', pPopData')"
  from p show "indexInput rb' = indexInput rb" by (cases rule: PopFront_cases) simp_all
  from p show "dataBuffer rb' = dataBuffer rb" by (cases rule: PopFront_cases) simp_all
  {
    assume ok: "e = NETWORK_OK"
    from p show adv: "indexOutput rb' = indexOutput rb + cellSize rb"
      by (cases rule: PopFront_cases) (use ok in simp_all)
    {
      assume "unat (indexOutput rb) + unat (cellSize rb) < 2 ^ 32"
      then show "indexOutput rb \<le> indexOutput rb'"
        using adv word_le_add_no_wrap [of "indexOutput rb" "cellSize rb"] by simp
    }
    from p show "\<forall>dst. pPopData = Some dst \<longrightarrow>
              memcpy dst 0 (dataBuffer rb)
                (unat (indexOutput rb mod (numberOfCell rb * cellSize rb)))
                (unat (cellSize rb)) = pPopData'"
      by (cases rule: PopFront_cases) (use ok in simp_all)
  }
  {
    assume "e \<noteq> NETWORK_OK"
    with p show "rb' = rb" by (cases rule: PopFront_cases) simp_all
  }
next
  assume p: "NETWORK_RingBuffFront rb pFrontData = Some (e, rb', pFrontData')"
  then show "rb' = rb" by (rule Front_frame)
  {
    assume ok: "e = NETWORK_OK"
    have nz: "numberOfCell rb * cellSize rb \<noteq> 0"
      using p Front_undefined [of rb pFrontData] by auto
    have ne: "indexInput rb \<noteq> indexOutput rb"
      using p ok Front_empty [OF nz, of pFrontData] by auto
    obtain dst where d: "pFrontData = Some dst"
      using p Front_null [OF ne] by (cases pFrontData) auto
    have "memcpy dst 0 (dataBuffer rb)
                (unat (indexOutput rb mod (numberOfCell rb * cellSize rb)))
                (unat (cellSize rb)) = pFrontData'"
      using p d Front_copy [OF nz ne, of dst]
      by (cases "memcpy dst 0 (dataBuffer rb)
                (unat (indexOutput rb mod (numberOfCell rb * cellSize rb)))
                (unat (cellSize rb))") simp_all
    with d show "\<exists>dst. pFrontData = Some dst
            \<and> memcpy dst 0 (dataBuffer rb)
                (unat (indexOutput rb mod (numberOfCell rb * cellSize rb)))
                (unat (cellSize rb)) = pFrontData'"
      by blast
  }
qed


theorem counters_advance_modulo_witness:
  "NETWORK_RingBuffPushBack (held_2x4 (cell_1 @ cell_2) 8 0 1) cell_3
     = Some (NETWORK_OK, held_2x4 (cell_3 @ cell_2) 12 4 1)
   \<and> memcpy (cell_1 @ cell_2) (unat ((8 :: uint) mod (2 * 4))) cell_3 0 (unat (4 :: uint))
     = Some (cell_3 @ cell_2)
   \<and> NETWORK_RingBuffPushBack (held_2x4 (cell_1 @ cell_2) 8 0 0) cell_3
     = Some (NETWORK_ERROR_BUFFER_SIZE, held_2x4 (cell_1 @ cell_2) 8 0 0)
   \<and> NETWORK_RingBuffPopFront (held_2x4 (cell_3 @ cell_2) 12 4 1) (Some dest_4)
     = Some (NETWORK_OK, held_2x4 (cell_3 @ cell_2) 12 8 1, Some cell_2)
   \<and> memcpy dest_4 0 (cell_3 @ cell_2) (unat ((4 :: uint) mod (2 * 4))) (unat (4 :: uint))
     = Some cell_2
   \<and> NETWORK_RingBuffPopFront (buffer_2x4 0) (Some dest_4)
     = Some (NETWORK_ERROR_BUFFER_EMPTY, buffer_2x4 0, Some dest_4)
   \<and> NETWORK_RingBuffFront (held_2x4 (cell_3 @ cell_2) 12 8 1) (Some dest_4)
     = Some (NETWORK_OK, held_2x4 (cell_3 @ cell_2) 12 8 1, Some cell_3)
   \<and> memcpy dest_4 0 (cell_3 @ cell_2) (unat ((8 :: uint) mod (2 * 4))) (unat (4 :: uint))
     = Some cell_3"
proof -
  let ?a = "held_2x4 (cell_1 @ cell_2) 8 0 1"
  let ?b = "held_2x4 (cell_3 @ cell_2) 12 4 1"
  let ?c = "held_2x4 (cell_3 @ cell_2) 12 8 1"
  let ?f = "held_2x4 (cell_1 @ cell_2) 8 0 0"
  have push: "NETWORK_RingBuffPushBack ?a cell_3 = Some (NETWORK_OK, ?b)"
    by code_simp
  have pop: "NETWORK_RingBuffPopFront ?b (Some dest_4) = Some (NETWORK_OK, ?c, Some cell_2)"
    by code_simp
  have front: "NETWORK_RingBuffFront ?c (Some dest_4) = Some (NETWORK_OK, ?c, Some cell_3)"
    by code_simp
  have full: "NETWORK_RingBuffPushBack ?f cell_3 = Some (NETWORK_ERROR_BUFFER_SIZE, ?f)"
    by code_simp
  have empty: "NETWORK_RingBuffPopFront (buffer_2x4 0) (Some dest_4)
      = Some (NETWORK_ERROR_BUFFER_EMPTY, buffer_2x4 0, Some dest_4)"
    by code_simp
  note pushed = counters_advance_modulo [of ?a cell_3 NETWORK_OK ?b,
      THEN conjunct1, THEN mp, OF push, THEN conjunct1, THEN mp, OF refl]
  note refused = counters_advance_modulo [of ?f cell_3 NETWORK_ERROR_BUFFER_SIZE ?f,
      THEN conjunct1, THEN mp, OF full, THEN conjunct2]
  note popped = counters_advance_modulo [of ?b cell_3 NETWORK_OK ?c "Some dest_4" "Some cell_2",
      THEN conjunct2, THEN conjunct1, THEN mp, OF pop]
  note nothing = counters_advance_modulo [of "buffer_2x4 0" cell_3 NETWORK_ERROR_BUFFER_EMPTY
        "buffer_2x4 0" "Some dest_4" "Some dest_4",
      THEN conjunct2, THEN conjunct1, THEN mp, OF empty]
  note peeked = counters_advance_modulo [of ?c cell_3 NETWORK_OK ?c None None "Some dest_4"
        "Some cell_3",
      THEN conjunct2, THEN conjunct2, THEN mp, OF front]
  have 1: "memcpy (cell_1 @ cell_2) (unat ((8 :: uint) mod (2 * 4))) cell_3 0 (unat (4 :: uint))
      = Some (cell_3 @ cell_2)"
    using pushed by simp
  have 2: "memcpy dest_4 0 (cell_3 @ cell_2) (unat ((4 :: uint) mod (2 * 4))) (unat (4 :: uint))
      = Some cell_2"
    using popped by simp
  have 3: "memcpy dest_4 0 (cell_3 @ cell_2) (unat ((8 :: uint) mod (2 * 4))) (unat (4 :: uint))
      = Some cell_3"
    using peeked by simp
  have 4: "NETWORK_RingBuffPushBack ?f cell_3 = Some (NETWORK_ERROR_BUFFER_SIZE, ?f)"
    using refused full by simp
  have 5: "NETWORK_RingBuffPopFront (buffer_2x4 0) (Some dest_4)
      = Some (NETWORK_ERROR_BUFFER_EMPTY, buffer_2x4 0, Some dest_4)"
    using nothing empty by simp
  show ?thesis by (intro conjI push pop front 1 2 3 4 5)
qed

subsection \<open>A full buffer that overwrites, after the wrap\<close>

lemma offset_in_2x3:
  fixes x :: uint
  assumes "unat x < 1431655765"
  shows "unat ((3 * x) mod 6) = 0 \<or> unat ((3 * x) mod 6) = 3"
proof -
  have "unat (3 * x) = 3 * unat x"
    using assms by (intro unat_times_small [of 3 x, simplified]) simp
  then have "unat ((3 * x) mod 6) = (3 * unat x) mod 6"
    by (simp add: unat_mod)
  then show ?thesis by presburger
qed

lemma overwrite_2x3:
  fixes x :: uint
  assumes "unat x < 1431655765"
  shows "NETWORK_RingBuffPushBack (held_2x3 (3 * x) (3 * x - 6)) zero_3
    = Some (NETWORK_OK, held_2x3 (3 * (x + 1)) (3 * (x + 1) - 6))"
proof -
  let ?rb = "held_2x3 (3 * x) (3 * x - 6)"
  have c: "cellSize ?rb \<noteq> 0" by (simp add: held_2x3_def)
  have full: "numberOfCell ?rb - occupied ?rb div cellSize ?rb = 0"
    by (simp add: held_2x3_def occupied_def)
  have o: "isOverwriting ?rb \<noteq> 0" by (simp add: held_2x3_def)
  have m: "memcpy (dataBuffer ?rb) (unat (indexInput ?rb mod (numberOfCell ?rb * cellSize ?rb)))
      zero_3 0 (unat (cellSize ?rb)) = Some (dataBuffer ?rb)"
    using offset_in_2x3 [OF assms] by (auto simp: held_2x3_def memcpy_def zero_3_def)
  have push: "NETWORK_RingBuffPushBack ?rb zero_3
      = Some (NETWORK_OK, ?rb\<lparr>indexOutput := 3 * x - 6 + 3, indexInput := 3 * x + 3\<rparr>)"
    using PushBack_over [OF c full o, of zero_3] m by (simp add: held_2x3_def)
  have "?rb\<lparr>indexOutput := 3 * x - 6 + 3, indexInput := 3 * x + 3\<rparr>
      = held_2x3 (3 * (x + 1)) (3 * (x + 1) - 6)"
    by (simp add: held_2x3_def algebra_simps)
  then show ?thesis using push by simp
qed

lemma pushes_2x3_reach:
  "unat x + k \<le> 1431655765 \<Longrightarrow>
   run (held_2x3 (3 * x) (3 * x - 6)) (pushes k zero_3)
     = Some (held_2x3 (3 * (x + of_nat k)) (3 * (x + of_nat k) - 6))"
proof (induction k arbitrary: x)
  case 0
  then show ?case by (simp add: pushes_simps)
next
  case (Suc k)
  have x: "unat x < 1431655765" using Suc.prems by simp
  then have x1: "unat (x + 1) = Suc (unat x)" by (intro unat_Suc_word) simp
  have "run (held_2x3 (3 * x) (3 * x - 6)) (pushes (Suc k) zero_3)
      = run (held_2x3 (3 * (x + 1)) (3 * (x + 1) - 6)) (pushes k zero_3)"
    using overwrite_2x3 [OF x] by (simp add: pushes_simps)
  also have "\<dots> = Some (held_2x3 (3 * (x + 1 + of_nat k)) (3 * (x + 1 + of_nat k) - 6))"
    using Suc.prems x1 by (intro Suc.IH) simp
  finally show ?case by (simp add: algebra_simps)
qed

text \<open>
  C4, as stated, fails. The buffer of two cells of three bytes that overwrites is
  constructed and 1431655767 cells are pushed. Every push succeeds, and since
  \<open>3 * 1431655767 = 2 ^ 32 + 5\<close> the pushes leave \<open>indexInput\<close> at 5 and \<open>indexOutput\<close>
  at \<open>2 ^ 32 - 1\<close>: the buffer is well-sized and its occupied byte count is 6, the
  capacity. The next \<open>PushBack\<close> copies three bytes to the offset \<open>5 mod 6 = 5\<close> of a
  storage of six bytes, which is undefined: it does not succeed.
\<close>

theorem PushBack_overwrite_overruns:
  "NETWORK_NewRingBufferWithOverwriting True (Some zero_bytes) 2 3 1 = Some (held_2x3 0 0)
   \<and> run (held_2x3 0 0) (pushes 1431655767 zero_3) = Some (held_2x3 5 0xFFFFFFFF)
   \<and> wellSized (held_2x3 5 0xFFFFFFFF)
   \<and> isOverwriting (held_2x3 5 0xFFFFFFFF) = 1
   \<and> occupied (held_2x3 5 0xFFFFFFFF)
     = numberOfCell (held_2x3 5 0xFFFFFFFF) * cellSize (held_2x3 5 0xFFFFFFFF)
   \<and> NETWORK_RingBuffPushBack (held_2x3 5 0xFFFFFFFF) zero_3 = None"
proof -
  have new: "NETWORK_NewRingBufferWithOverwriting True (Some zero_bytes) 2 3 1
      = Some (held_2x3 0 0)"
    by (simp add: NETWORK_NewRingBufferWithOverwriting_def zero_bytes_def held_2x3_def upt_rec)
  have first: "run (held_2x3 0 0) (pushes 2 zero_3) = Some (held_2x3 6 0)"
    by (simp add: pushes_few NETWORK_RingBuffPushBack_def
        NETWORK_RingBuffGetFreeCellNb_def buffPointor_def memcpy_def held_2x3_def zero_3_def)
  have "run (held_2x3 (3 * 2) (3 * 2 - 6)) (pushes 1431655763 zero_3)
      = Some (held_2x3 (3 * (2 + of_nat 1431655763)) (3 * (2 + of_nat 1431655763) - 6))"
    by (rule pushes_2x3_reach) simp
  then have reach: "run (held_2x3 6 0) (pushes 1431655763 zero_3)
      = Some (held_2x3 0xFFFFFFFF 0xFFFFFFF9)"
    by simp
  have last: "run (held_2x3 0xFFFFFFFF 0xFFFFFFF9) (pushes 2 zero_3)
      = Some (held_2x3 5 0xFFFFFFFF)"
    by (simp add: pushes_few NETWORK_RingBuffPushBack_def
        NETWORK_RingBuffGetFreeCellNb_def buffPointor_def memcpy_def held_2x3_def zero_3_def)
  have "pushes 1431655767 zero_3 = pushes 2 zero_3 @ pushes 1431655763 zero_3 @ pushes 2 zero_3"
    by (simp add: pushes_simps(3) [symmetric])
  then have run: "run (held_2x3 0 0) (pushes 1431655767 zero_3) = Some (held_2x3 5 0xFFFFFFFF)"
    by (simp only: run_append first reach last Option.bind.simps)
  have w: "wellSized (held_2x3 5 0xFFFFFFFF)"
    by (simp add: wellSized_def held_2x3_def)
  have o: "isOverwriting (held_2x3 5 0xFFFFFFFF) = 1" by (simp add: held_2x3_def)
  have f: "occupied (held_2x3 5 0xFFFFFFFF)
     = numberOfCell (held_2x3 5 0xFFFFFFFF) * cellSize (held_2x3 5 0xFFFFFFFF)"
    by (simp add: occupied_def held_2x3_def)
  have over: "NETWORK_RingBuffPushBack (held_2x3 5 0xFFFFFFFF) zero_3 = None"
    by (simp add: NETWORK_RingBuffPushBack_def NETWORK_RingBuffGetFreeCellNb_def
        buffPointor_def memcpy_def held_2x3_def zero_3_def)
  show ?thesis by (intro conjI new run w o f over)
qed

subsection \<open>A capacity that an \<open>unsigned int\<close> does not hold\<close>

lemma push_wide_6:
  fixes x :: uint
  assumes "unat x < 715827882"
  shows "NETWORK_RingBuffPushBack (wide_6 (6 * x)) zero_6 = Some (NETWORK_OK, wide_6 (6 * (x + 1)))"
proof -
  let ?rb = "wide_6 (6 * x)"
  have six: "unat (6 * x) = 6 * unat x"
    using assms by (intro unat_times_small [of 6 x, simplified]) simp
  have "unat ((6 * x) div 6) = unat x"
    by (simp add: unat_div six)
  then have d: "(6 * x) div 6 = x" by (simp add: word_unat_eq_iff)
  have "unat x \<noteq> unat (0x80000001 :: uint)" using assms by simp
  then have ne: "x \<noteq> 0x80000001" by (simp add: word_unat_eq_iff)
  have c: "cellSize ?rb \<noteq> 0" by (simp add: wide_6_def)
  have free: "numberOfCell ?rb - occupied ?rb div cellSize ?rb \<noteq> 0"
    using ne by (simp add: wide_6_def occupied_def d)
  have cap: "numberOfCell ?rb * cellSize ?rb = 6" by (simp add: wide_6_def)
  have "unat ((6 * x) mod 6) = 0" by (simp add: unat_mod six)
  then have m: "memcpy (dataBuffer ?rb) (unat (indexInput ?rb mod (numberOfCell ?rb * cellSize ?rb)))
      zero_6 0 (unat (cellSize ?rb)) = Some (dataBuffer ?rb)"
    unfolding cap by (simp add: wide_6_def memcpy_def zero_6_def)
  have push: "NETWORK_RingBuffPushBack ?rb zero_6
      = Some (NETWORK_OK, ?rb\<lparr>indexInput := 6 * x + 6\<rparr>)"
    using PushBack_room [OF c free, of zero_6] m cap by (simp add: wide_6_def)
  have "?rb\<lparr>indexInput := 6 * x + 6\<rparr> = wide_6 (6 * (x + 1))"
    by (simp add: wide_6_def algebra_simps)
  then show ?thesis using push by simp
qed

lemma pushes_wide_6_reach:
  "unat x + k \<le> 715827882 \<Longrightarrow>
   run (wide_6 (6 * x)) (pushes k zero_6) = Some (wide_6 (6 * (x + of_nat k)))"
proof (induction k arbitrary: x)
  case 0
  then show ?case by (simp add: pushes_simps)
next
  case (Suc k)
  have x: "unat x < 715827882" using Suc.prems by simp
  then have x1: "unat (x + 1) = Suc (unat x)" by (intro unat_Suc_word) simp
  have "run (wide_6 (6 * x)) (pushes (Suc k) zero_6)
      = run (wide_6 (6 * (x + 1))) (pushes k zero_6)"
    using push_wide_6 [OF x] by (simp add: pushes_simps)
  also have "\<dots> = Some (wide_6 (6 * (x + 1 + of_nat k)))"
    using Suc.prems x1 by (intro Suc.IH) simp
  finally show ?case by (simp add: algebra_simps)
qed

text \<open>
  C1, as stated, fails. A buffer of \<open>2 ^ 31 + 1\<close> cells of six bytes is constructed;
  both sizes are positive. The constructor asks \<open>malloc\<close> for the \<open>unsigned int\<close>
  product, 6 bytes, and the offsets are taken modulo the same product. 715827883
  cells are pushed: every push finds free cells and copies six bytes to the offset 0.
  Since \<open>6 * 715827883 = 2 ^ 32 + 2\<close>, the pushes leave \<open>indexInput\<close> at 2 and
  \<open>indexOutput\<close> at 0: the occupied byte count is 2, which is not a multiple of
  \<open>cellSize\<close>.
\<close>

theorem occupied_splits_a_cell:
  "NETWORK_NewRingBufferWithOverwriting True (Some zero_bytes) 0x80000001 6 0 = Some (wide_6 0)
   \<and> 0 < numberOfCell (wide_6 0) \<and> 0 < cellSize (wide_6 0)
   \<and> run (wide_6 0) (pushes 715827883 zero_6) = Some (wide_6 2)
   \<and> unat (occupied (wide_6 2)) = 2
   \<and> \<not> unat (cellSize (wide_6 2)) dvd unat (occupied (wide_6 2))"
proof -
  have new: "NETWORK_NewRingBufferWithOverwriting True (Some zero_bytes) 0x80000001 6 0
      = Some (wide_6 0)"
    by (simp add: NETWORK_NewRingBufferWithOverwriting_def zero_bytes_def wide_6_def upt_rec)
  have pos: "0 < numberOfCell (wide_6 0)" "0 < cellSize (wide_6 0)"
    by (simp_all add: wide_6_def)
  have "run (wide_6 (6 * 0)) (pushes 715827882 zero_6) = Some (wide_6 (6 * (0 + of_nat 715827882)))"
    by (rule pushes_wide_6_reach) simp
  then have reach: "run (wide_6 0) (pushes 715827882 zero_6) = Some (wide_6 0xFFFFFFFC)"
    by simp
  have last: "run (wide_6 0xFFFFFFFC) (pushes 1 zero_6) = Some (wide_6 2)"
    by (simp add: pushes_few NETWORK_RingBuffPushBack_def
        NETWORK_RingBuffGetFreeCellNb_def buffPointor_def memcpy_def wide_6_def zero_6_def)
  have "pushes 715827883 zero_6 = pushes 715827882 zero_6 @ pushes 1 zero_6"
    by (simp add: pushes_simps(3) [symmetric])
  then have run: "run (wide_6 0) (pushes 715827883 zero_6) = Some (wide_6 2)"
    by (simp only: run_append reach last Option.bind.simps)
  have occ: "unat (occupied (wide_6 2)) = 2" by (simp add: occupied_def wide_6_def)
  have nd: "\<not> unat (cellSize (wide_6 2)) dvd unat (occupied (wide_6 2))"
    by (simp add: occupied_def wide_6_def)
  show ?thesis by (intro conjI new pos run occ nd)
qed

section \<open>First in, first out\<close>

subsection \<open>Cells laid out one after the other\<close>

lemma cellAt_concat:
  assumes "\<forall>c\<in>set cells. length c = len" and "i < length cells"
  shows "cellAt (concat cells @ rest) (i * len) len = cells ! i"
  using assms
proof (induction cells arbitrary: i)
  case Nil
  then show ?case by simp
next
  case (Cons c cells)
  show ?case
  proof (cases i)
    case 0
    then show ?thesis using Cons.prems by (simp add: cellAt_def)
  next
    case (Suc k)
    then have "cellAt (concat (c # cells) @ rest) (i * len) len
        = cellAt (concat cells @ rest) (k * len) len"
      using Cons.prems by (simp add: cellAt_def)
    then show ?thesis using Cons.IH [of k] Cons.prems Suc by simp
  qed
qed

lemma unat_of_nat_cells:
  fixes n cs :: uint
  assumes "unat n * unat cs < 2 ^ 32" and "j \<le> unat n"
  shows "unat (of_nat j * cs) = j * unat cs"
proof -
  have "j * unat cs \<le> unat n * unat cs" using assms(2) by (rule mult_le_mono1)
  then have lt: "j * unat cs < 2 ^ 32" using assms(1) by (rule le_less_trans)
  have "unat n < 2 ^ 32" using unsigned_less [of n, where 'a = nat] by simp
  then have "j < 2 ^ 32" using assms(2) by simp
  then have "unat (of_nat j :: uint) = j" by (simp add: unat_of_nat)
  then show ?thesis using lt unat_mult_lem [of "of_nat j :: uint" cs] by simp
qed

lemma offset_of_cell:
  fixes n cs :: uint
  assumes fits: "unat n * unat cs < 2 ^ 32" and c: "0 < cs" and j: "j < unat n"
  shows "unat ((of_nat j * cs) mod (n * cs)) = j * unat cs"
proof -
  have "0 < unat cs" using c by (simp add: word_less_nat_alt)
  then have "j * unat cs < unat n * unat cs" using j by simp
  then show ?thesis
    using unat_of_nat_cells [OF fits, of j] j
    by (simp add: unat_mod unat_capacity [OF fits])
qed

lemma free_cells_left:
  fixes n cs :: uint
  assumes fits: "unat n * unat cs < 2 ^ 32" and c: "0 < cs" and j: "j < unat n"
  shows "n - (of_nat j * cs) div cs \<noteq> 0"
proof
  assume "n - (of_nat j * cs) div cs = 0"
  then have "n = (of_nat j * cs) div cs" by simp
  then have "unat n = unat (of_nat j * cs) div unat cs"
    by (metis unat_div)
  moreover have "0 < unat cs" using c by (simp add: word_less_nat_alt)
  ultimately have "unat n = j"
    using unat_of_nat_cells [OF fits, of j] j by simp
  then show False using j by simp
qed

subsection \<open>Pushing into a buffer that has never been popped\<close>

lemma push_cells_in_order:
  assumes fits: "unat (numberOfCell rb) * unat (cellSize rb) < 2 ^ 32"
    and c: "0 < cellSize rb"
    and len: "length (dataBuffer rb) = unat (numberOfCell rb) * unat (cellSize rb)"
    and out: "indexOutput rb = 0"
    and inp: "indexInput rb = of_nat j * cellSize rb"
    and room: "j + length cells \<le> unat (numberOfCell rb)"
    and sized: "\<forall>c\<in>set cells. length c = unat (cellSize rb)"
  shows "push_cells rb cells
    = Some (replicate (length cells) NETWORK_OK,
        rb\<lparr>dataBuffer :=
             take (j * unat (cellSize rb)) (dataBuffer rb) @ concat cells
             @ drop ((j + length cells) * unat (cellSize rb)) (dataBuffer rb),
           indexInput := of_nat (j + length cells) * cellSize rb\<rparr>)"
  using assms
proof (induction cells arbitrary: rb j)
  case Nil
  then show ?case by simp
next
  case (Cons x cells)
  let ?C = "unat (cellSize rb)" and ?N = "unat (numberOfCell rb)" and ?S = "dataBuffer rb"
  have j: "j < ?N" using Cons.prems(6) by simp
  have x: "length x = ?C" using Cons.prems(7) by simp
  have cpos: "0 < ?C" using Cons.prems(2) by (simp add: word_less_nat_alt)
  have nz: "cellSize rb \<noteq> 0" using Cons.prems(2) by simp
  have inside: "j * ?C + ?C \<le> length ?S"
  proof -
    have "Suc j * ?C \<le> ?N * ?C" using j by (intro mult_le_mono1) simp
    then show ?thesis using Cons.prems(3) by simp
  qed
  have free: "numberOfCell rb - occupied rb div cellSize rb \<noteq> 0"
    using free_cells_left [OF Cons.prems(1,2) j] Cons.prems(4,5) by (simp add: occupied_def)
  have off: "unat (indexInput rb mod (numberOfCell rb * cellSize rb)) = j * ?C"
    using offset_of_cell [OF Cons.prems(1,2) j] Cons.prems(5) by simp
  have capnz: "numberOfCell rb * cellSize rb \<noteq> 0"
  proof -
    have "0 < ?N * ?C" using j cpos by simp
    then show ?thesis using unat_capacity [OF Cons.prems(1)] by (metis less_numeral_extra(3) unat_0)
  qed
  let ?S1 = "take (j * ?C) ?S @ x @ drop (j * ?C + ?C) ?S"
  let ?rb1 = "rb\<lparr>dataBuffer := ?S1, indexInput := indexInput rb + cellSize rb\<rparr>"
  have m: "memcpy ?S (j * ?C) x 0 ?C = Some ?S1"
    using inside x by (simp add: memcpy_def)
  have push: "NETWORK_RingBuffPushBack rb x = Some (NETWORK_OK, ?rb1)"
    using PushBack_room [OF nz free, of x] capnz off m by simp
  have inp1: "indexInput ?rb1 = of_nat (Suc j) * cellSize ?rb1"
    using Cons.prems(5) by (simp add: algebra_simps)
  have len1: "length (dataBuffer ?rb1) = unat (numberOfCell ?rb1) * unat (cellSize ?rb1)"
    using Cons.prems(3) inside x by simp
  have rest: "push_cells ?rb1 cells
    = Some (replicate (length cells) NETWORK_OK,
        ?rb1\<lparr>dataBuffer :=
             take (Suc j * unat (cellSize ?rb1)) (dataBuffer ?rb1) @ concat cells
             @ drop ((Suc j + length cells) * unat (cellSize ?rb1)) (dataBuffer ?rb1),
           indexInput := of_nat (Suc j + length cells) * cellSize ?rb1\<rparr>)"
    using Cons.prems(1,2,4,6,7) inp1 len1 by (intro Cons.IH) simp_all
  have t: "take (Suc j * ?C) ?S1 = take (j * ?C) ?S @ x"
    using inside x by simp
  have d: "drop ((Suc j + length cells) * ?C) ?S1 = drop ((Suc j + length cells) * ?C) ?S"
    using inside x by (simp add: algebra_simps)
  show ?case
    using push rest t d by (simp add: algebra_simps)
qed


subsection \<open>Popping what was pushed\<close>

lemma index_differs:
  fixes n cs :: uint
  assumes fits: "unat n * unat cs < 2 ^ 32" and c: "0 < cs" and j: "j < m" and m: "m \<le> unat n"
  shows "of_nat m * cs \<noteq> of_nat j * cs"
proof
  assume "of_nat m * cs = of_nat j * cs"
  then have "unat (of_nat m * cs) = unat (of_nat j * cs)" by simp
  then have "m * unat cs = j * unat cs"
    using unat_of_nat_cells [OF fits m] unat_of_nat_cells [OF fits, of j] j m by simp
  moreover have "0 < unat cs" using c by (simp add: word_less_nat_alt)
  ultimately show False using j by simp
qed

lemma pop_cells_in_order:
  assumes fits: "unat (numberOfCell rb) * unat (cellSize rb) < 2 ^ 32"
    and c: "0 < cellSize rb"
    and len: "length (dataBuffer rb) = unat (numberOfCell rb) * unat (cellSize rb)"
    and out: "indexOutput rb = of_nat j * cellSize rb"
    and inp: "indexInput rb = of_nat m * cellSize rb"
    and held: "j + length dsts \<le> m" "m \<le> unat (numberOfCell rb)"
    and sized: "\<forall>d\<in>set dsts. unat (cellSize rb) \<le> length d"
  shows "pop_cells rb (map Some dsts)
    = Some (replicate (length dsts) NETWORK_OK,
        rb\<lparr>indexOutput := of_nat (j + length dsts) * cellSize rb\<rparr>,
        map (\<lambda>(i, d). Some (cellAt (dataBuffer rb) (i * unat (cellSize rb)) (unat (cellSize rb))
                               @ drop (unat (cellSize rb)) d))
          (zip [j ..< j + length dsts] dsts))"
  using assms
proof (induction dsts arbitrary: rb j)
  case Nil
  then show ?case by simp
next
  case (Cons d dsts)
  let ?C = "unat (cellSize rb)" and ?N = "unat (numberOfCell rb)" and ?S = "dataBuffer rb"
  have j: "j < m" "j < ?N" using Cons.prems(6,7) by simp_all
  have d: "?C \<le> length d" using Cons.prems(8) by simp
  have cpos: "0 < ?C" using Cons.prems(2) by (simp add: word_less_nat_alt)
  have ne: "indexInput rb \<noteq> indexOutput rb"
    using index_differs [OF Cons.prems(1,2) j(1) Cons.prems(7)] Cons.prems(4,5) by simp
  have inside: "j * ?C + ?C \<le> length ?S"
  proof -
    have "Suc j * ?C \<le> ?N * ?C" using j(2) by (intro mult_le_mono1) simp
    then show ?thesis using Cons.prems(3) by simp
  qed
  have off: "unat (indexOutput rb mod (numberOfCell rb * cellSize rb)) = j * ?C"
    using offset_of_cell [OF Cons.prems(1,2) j(2)] Cons.prems(4) by simp
  have capnz: "numberOfCell rb * cellSize rb \<noteq> 0"
  proof -
    have "0 < ?N * ?C" using j(2) cpos by simp
    then show ?thesis using unat_capacity [OF Cons.prems(1)] by (metis less_numeral_extra(3) unat_0)
  qed
  let ?rb1 = "rb\<lparr>indexOutput := indexOutput rb + cellSize rb\<rparr>"
  have m: "memcpy d 0 ?S (j * ?C) ?C = Some (cellAt ?S (j * ?C) ?C @ drop ?C d)"
    using inside d by (simp add: memcpy_def cellAt_def)
  have pop: "NETWORK_RingBuffPopFront rb (Some d)
      = Some (NETWORK_OK, ?rb1, Some (cellAt ?S (j * ?C) ?C @ drop ?C d))"
    using PopFront_copy [OF ne, of d] capnz off m by simp
  have out1: "indexOutput ?rb1 = of_nat (Suc j) * cellSize ?rb1"
    using Cons.prems(4) by (simp add: algebra_simps)
  have rest: "pop_cells ?rb1 (map Some dsts)
    = Some (replicate (length dsts) NETWORK_OK,
        ?rb1\<lparr>indexOutput := of_nat (Suc j + length dsts) * cellSize ?rb1\<rparr>,
        map (\<lambda>(i, d). Some (cellAt (dataBuffer ?rb1) (i * unat (cellSize ?rb1))
                                 (unat (cellSize ?rb1))
                               @ drop (unat (cellSize ?rb1)) d))
          (zip [Suc j ..< Suc j + length dsts] dsts))"
    using Cons.prems(1,2,3,5,6,7,8) out1 by (intro Cons.IH) simp_all
  have u: "[j ..< Suc (j + length dsts)] = j # [Suc j ..< Suc (j + length dsts)]"
    by (rule upt_conv_Cons) simp
  show ?case
    using pop rest by (simp add: u del: upt_Suc)
qed

lemma map2_as_indices:
  assumes "length ys = length xs"
  shows "map (\<lambda>(i, y). f (xs ! i) y) (zip [0 ..< length ys] ys) = map2 f xs ys"
proof (rule nth_equalityI)
  show "length (map (\<lambda>(i, y). f (xs ! i) y) (zip [0 ..< length ys] ys)) = length (map2 f xs ys)"
    using assms by simp
  fix i assume "i < length (map (\<lambda>(i, y). f (xs ! i) y) (zip [0 ..< length ys] ys))"
  then have "i < length ys" by simp
  then show "map (\<lambda>(i, y). f (xs ! i) y) (zip [0 ..< length ys] ys) ! i = map2 f xs ys ! i"
    using assms by simp
qed

text \<open>
  From the buffer that \<open>NETWORK_NewRingBuffer\<close> has just returned, with a storage of
  \<open>cellCount \<times> cellSize\<close> bytes: \<open>N \<le> cellCount\<close> cells of exactly \<open>cellSize\<close> bytes
  are pushed, then \<open>N\<close> destinations of at least \<open>cellSize\<close> bytes are popped into.
  Every call returns \<open>NETWORK_OK\<close>, and the first \<open>cellSize\<close> bytes of the \<open>i\<close>-th
  destination are the \<open>i\<close>-th cell pushed.
\<close>

lemma fresh_queue_order:
  assumes new: "NETWORK_NewRingBuffer structAlloc dataAlloc n cs = Some rb0"
    and pos: "0 < cs"
    and len: "length (dataBuffer rb0) = unat n * unat cs"
    and count: "length cells \<le> unat n"
    and cells: "\<forall>c\<in>set cells. length c = unat cs"
    and dsts: "length dsts = length cells" "\<forall>d\<in>set dsts. unat cs \<le> length d"
  shows "push_then_pop rb0 cells (map Some dsts)
    = Some (replicate (length cells) NETWORK_OK, replicate (length cells) NETWORK_OK,
            map2 (\<lambda>c d. Some (c @ drop (unat cs) d)) cells dsts)"
proof -
  from new obtain bytes where rb0:
    "rb0 = \<lparr>dataBuffer = map bytes [0 ..< unat (cs * n)], numberOfCell = n, cellSize = cs,
            indexInput = 0, indexOutput = 0, isOverwriting = 0\<rparr>"
    unfolding NETWORK_NewRingBuffer_def by (rule NewRingBufferWithOverwriting_Some)
  have f: "numberOfCell rb0 = n" "cellSize rb0 = cs" "indexInput rb0 = 0" "indexOutput rb0 = 0"
    by (simp_all add: rb0)
  have "unat n * unat cs = unat (cs * n)" using len rb0 by simp
  then have fits: "unat n * unat cs < 2 ^ 32"
    using unsigned_less [of "cs * n", where 'a = nat] by simp
  let ?N = "length cells" and ?C = "unat cs"
  let ?S = "concat cells @ drop (?N * ?C) (dataBuffer rb0)"
  let ?rb1 = "rb0\<lparr>dataBuffer := ?S, indexInput := of_nat ?N * cs\<rparr>"
  have push: "push_cells rb0 cells = Some (replicate ?N NETWORK_OK, ?rb1)"
    using push_cells_in_order [of rb0 0 cells] fits pos len count cells by (simp add: f)
  have lenS: "length ?S = unat n * unat cs"
  proof -
    have "length (concat cells) = ?N * ?C"
      using cells by (induction cells) simp_all
    moreover have "?N * ?C \<le> unat n * unat cs" using count by (rule mult_le_mono1)
    ultimately show ?thesis using len by simp
  qed
  have pop: "pop_cells ?rb1 (map Some dsts)
    = Some (replicate (length dsts) NETWORK_OK,
        ?rb1\<lparr>indexOutput := of_nat (0 + length dsts) * cellSize ?rb1\<rparr>,
        map (\<lambda>(i, d). Some (cellAt (dataBuffer ?rb1) (i * unat (cellSize ?rb1))
                                 (unat (cellSize ?rb1))
                               @ drop (unat (cellSize ?rb1)) d))
          (zip [0 ..< 0 + length dsts] dsts))"
    using fits pos lenS count dsts by (intro pop_cells_in_order [where m = ?N]) (simp_all add: f)
  have "map (\<lambda>(i, d). Some (cellAt ?S (i * ?C) ?C @ drop ?C d)) (zip [0 ..< length dsts] dsts)
      = map (\<lambda>(i, d). Some (cells ! i @ drop ?C d)) (zip [0 ..< length dsts] dsts)"
  proof (rule map_cong [OF refl])
    fix p assume p: "p \<in> set (zip [0 ..< length dsts] dsts)"
    obtain i d where id: "p = (i, d)" by (cases p)
    then have "i \<in> set [0 ..< length dsts]" using p by (auto dest: set_zip_leftD)
    then have "i < ?N" using dsts(1) by simp
    then have "cellAt ?S (i * ?C) ?C = cells ! i"
      using cells by (intro cellAt_concat) simp_all
    then show "(case p of (i, d) \<Rightarrow> Some (cellAt ?S (i * ?C) ?C @ drop ?C d))
        = (case p of (i, d) \<Rightarrow> Some (cells ! i @ drop ?C d))"
      using id by simp
  qed
  also have "\<dots> = map2 (\<lambda>c d. Some (c @ drop ?C d)) cells dsts"
    using dsts(1) by (rule map2_as_indices)
  finally have outs: "map (\<lambda>(i, d). Some (cellAt ?S (i * ?C) ?C @ drop ?C d))
        (zip [0 ..< length dsts] dsts)
      = map2 (\<lambda>c d. Some (c @ drop ?C d)) cells dsts" .
  show ?thesis
    using push pop outs dsts(1) by (simp add: push_then_pop_def f)
qed


section \<open>The buffers in use\<close>

lemma counter_advances:
  fixes index cs :: uint
  assumes "unat cs dvd unat index" and "unat index \<le> k * unat cs"
    and "Suc k * unat cs < 2 ^ 32"
  shows "unat cs dvd unat (index + cs) \<and> unat (index + cs) \<le> Suc k * unat cs"
proof -
  have "unat index + unat cs \<le> Suc k * unat cs" using assms(2) by simp
  moreover from this have "unat index + unat cs < 2 ^ 32" using assms(3) by simp
  then have "unat (index + cs) = unat index + unat cs"
    using unat_add_lem [of index cs] by simp
  ultimately show ?thesis using assms(1) by simp
qed

lemma step_defined:
  assumes u: "inUse k rb" and h: "holdsCell rb x"
  shows "step rb x \<noteq> None"
proof -
  have w: "wellSized rb" and ci: "countsCells rb (indexInput rb)"
    and co: "countsCells rb (indexOutput rb)"
    using u by (simp_all add: inUse_def)
  note cap = wellSized_capacity [OF w]
  show ?thesis
  proof (cases x)
    case (PushBack d)
    then have d: "unat (cellSize rb) \<le> length d" using h by simp
    have m: "memcpy (dataBuffer rb) (unat (indexInput rb mod (numberOfCell rb * cellSize rb)))
        d 0 (unat (cellSize rb)) \<noteq> None"
      using cell_inside_storage [OF w ci] d by (simp add: memcpy_def)
    have "NETWORK_RingBuffPushBack rb d \<noteq> None"
    proof (cases "numberOfCell rb - occupied rb div cellSize rb = 0")
      case fz: True
      show ?thesis
      proof (cases "isOverwriting rb = 0")
        case True
        then show ?thesis using PushBack_full [OF cap(3) fz] by simp
      next
        case False
        then show ?thesis using PushBack_over [OF cap(3) fz False, of d] cap(2) m by simp
      qed
    next
      case False
      then show ?thesis using PushBack_room [OF cap(3) False, of d] cap(2) m by simp
    qed
    then show ?thesis using PushBack by simp
  next
    case (PopFront dst)
    have "NETWORK_RingBuffPopFront rb dst \<noteq> None"
    proof (cases "indexInput rb = indexOutput rb")
      case True
      then show ?thesis by (simp add: PopFront_empty)
    next
      case ne: False
      show ?thesis
      proof (cases dst)
        case None
        then show ?thesis using PopFront_discard [OF ne] by simp
      next
        case (Some d)
        then have "unat (cellSize rb) \<le> length d" using h PopFront by simp
        then show ?thesis
          using PopFront_copy [OF ne, of d] cap(2) memcpy_from_storage [OF w co] Some by simp
      qed
    qed
    then show ?thesis using PopFront by simp
  next
    case (Front dst)
    then obtain d where d: "dst = Some d" "unat (cellSize rb) \<le> length d"
      using h by (cases dst) simp_all
    have "NETWORK_RingBuffFront rb (Some d) \<noteq> None"
    proof (cases "indexInput rb = indexOutput rb")
      case True
      then show ?thesis using Front_empty [OF cap(2)] by simp
    next
      case False
      then show ?thesis
        using Front_copy [OF cap(2) False, of d] memcpy_from_storage [OF w co d(2)] by simp
    qed
    then show ?thesis using Front d by simp
  qed
qed

lemma wellSized_update:
  assumes "wellSized rb" and "numberOfCell rb' = numberOfCell rb" and "cellSize rb' = cellSize rb"
    and "length (dataBuffer rb') = length (dataBuffer rb)"
  shows "wellSized rb'"
  using assms by (simp add: wellSized_def)

lemma memcpy_length:
  "memcpy dst doff src soff len = Some dst' \<Longrightarrow> length dst' = length dst"
  by (auto simp: memcpy_def split: if_splits)

lemma inUseI:
  assumes "wellSized rb" and "cellSize rb = c"
    and "unat c dvd unat (indexInput rb)" "unat (indexInput rb) \<le> k * unat c"
    and "unat c dvd unat (indexOutput rb)" "unat (indexOutput rb) \<le> k * unat c"
  shows "inUse k rb"
  using assms by (simp add: inUse_def countsCells_def)

lemma inUse_later:
  assumes "inUse k rb"
  shows "inUse (Suc k) rb"
proof -
  have "k * unat (cellSize rb) \<le> Suc k * unat (cellSize rb)" by simp
  then show ?thesis
    using assms unfolding inUse_def by (meson le_trans)
qed

lemma step_inUse:
  assumes u: "inUse k rb" and s: "step rb x = Some rb'"
    and nowrap: "Suc k * unat (cellSize rb) < 2 ^ 32"
  shows "inUse (Suc k) rb' \<and> cellSize rb' = cellSize rb"
proof -
  let ?c = "cellSize rb"
  have w: "wellSized rb"
    and ci: "unat ?c dvd unat (indexInput rb)" and co: "unat ?c dvd unat (indexOutput rb)"
    and bi: "unat (indexInput rb) \<le> k * unat ?c"
    and bo: "unat (indexOutput rb) \<le> k * unat ?c"
    using u by (simp_all add: inUse_def countsCells_def)
  have same: "inUse (Suc k) rb" using u by (rule inUse_later)
  have bi': "unat (indexInput rb) \<le> Suc k * unat ?c" using bi by simp
  have bo': "unat (indexOutput rb) \<le> Suc k * unat ?c" using bo by simp
  note ai = counter_advances [OF ci bi nowrap]
  note ao = counter_advances [OF co bo nowrap]
  show ?thesis
  proof (cases x)
    case (PushBack d)
    then obtain e where p: "NETWORK_RingBuffPushBack rb d = Some (e, rb')" using s by auto
    from p show ?thesis
    proof (cases rule: PushBack_cases)
      case full
      then show ?thesis using same by simp
    next
      case (room buf)
      have f: "cellSize rb' = ?c" "indexInput rb' = indexInput rb + ?c"
        "indexOutput rb' = indexOutput rb" "numberOfCell rb' = numberOfCell rb"
        "length (dataBuffer rb') = length (dataBuffer rb)"
        using room(6) memcpy_length [OF room(5)] by simp_all
      have "wellSized rb'" using w f(4,1,5) by (rule wellSized_update)
      then have "inUse (Suc k) rb'"
        using f(1) ai co bo' unfolding f(2,3) [symmetric]
        by (intro inUseI [where c = ?c]) simp_all
      then show ?thesis using f(1) by simp
    next
      case (over buf)
      have f: "cellSize rb' = ?c" "indexInput rb' = indexInput rb + ?c"
        "indexOutput rb' = indexOutput rb + ?c" "numberOfCell rb' = numberOfCell rb"
        "length (dataBuffer rb') = length (dataBuffer rb)"
        using over(7) memcpy_length [OF over(6)] by simp_all
      have "wellSized rb'" using w f(4,1,5) by (rule wellSized_update)
      then have "inUse (Suc k) rb'"
        using f(1) ai ao unfolding f(2,3) [symmetric]
        by (intro inUseI [where c = ?c]) simp_all
      then show ?thesis using f(1) by simp
    qed
  next
    case (PopFront dst)
    then obtain e dst' where p: "NETWORK_RingBuffPopFront rb dst = Some (e, rb', dst')"
      using s by auto
    have adv: "inUse (Suc k) rb' \<and> cellSize rb' = cellSize rb"
      if r: "rb' = rb\<lparr>indexOutput := indexOutput rb + cellSize rb\<rparr>"
    proof -
      have f: "cellSize rb' = ?c" "indexInput rb' = indexInput rb"
        "indexOutput rb' = indexOutput rb + ?c" "numberOfCell rb' = numberOfCell rb"
        "length (dataBuffer rb') = length (dataBuffer rb)"
        using r by simp_all
      have "wellSized rb'" using w f(4,1,5) by (rule wellSized_update)
      then have "inUse (Suc k) rb'"
        using f(1) ao ci bi' unfolding f(2,3) [symmetric]
        by (intro inUseI [where c = ?c]) simp_all
      then show ?thesis using f(1) by simp
    qed
    from p show ?thesis
    proof (cases rule: PopFront_cases)
      case empty
      then show ?thesis using same by simp
    next
      case discard
      then show ?thesis using adv by simp
    next
      case (copy d d')
      then show ?thesis using adv by simp
    qed
  next
    case (Front dst)
    then obtain e dst' where "NETWORK_RingBuffFront rb dst = Some (e, rb', dst')"
      using s by auto
    then have "rb' = rb" by (rule Front_frame)
    then show ?thesis using same by simp
  qed
qed

text \<open>
  From a buffer in use, every sequence of calls whose blocks hold a cell runs without
  undefined behaviour as long as the counters cannot have passed \<open>2 ^ 32\<close>.
\<close>

lemma run_defined:
  assumes "inUse k rb" and "\<forall>x\<in>set calls. holdsCell rb x"
    and "(k + length calls) * unat (cellSize rb) < 2 ^ 32"
  shows "\<exists>rb'. run rb calls = Some rb' \<and> inUse (k + length calls) rb'"
  using assms
proof (induction calls arbitrary: rb k)
  case Nil
  then show ?case by simp
next
  case (Cons x calls)
  have "Suc k * unat (cellSize rb) \<le> (k + length (x # calls)) * unat (cellSize rb)"
    by (intro mult_le_mono1) simp
  then have nowrap: "Suc k * unat (cellSize rb) < 2 ^ 32"
    using Cons.prems(3) by (rule le_less_trans)
  obtain rb1 where s: "step rb x = Some rb1"
    using step_defined [OF Cons.prems(1), of x] Cons.prems(2) by auto
  note u1 = step_inUse [OF Cons.prems(1) s nowrap]
  have h1: "\<forall>y\<in>set calls. holdsCell rb1 y"
  proof
    fix y assume "y \<in> set calls"
    then have "holdsCell rb y" using Cons.prems(2) by simp
    then show "holdsCell rb1 y" using u1
      by (cases "(rb, y)" rule: holdsCell.cases) simp_all
  qed
  have "\<exists>rb'. run rb1 calls = Some rb' \<and> inUse (Suc k + length calls) rb'"
    using u1 h1 Cons.prems(3) by (intro Cons.IH) simp_all
  then show ?case using s by simp
qed

lemma constructed_inUse:
  assumes new: "NETWORK_NewRingBufferWithOverwriting structAlloc dataAlloc n cs ow = Some rb0"
    and pos: "0 < n" "0 < cs"
    and len: "length (dataBuffer rb0) = unat n * unat cs"
  shows "inUse 0 rb0"
proof -
  from new obtain bytes where rb0:
    "rb0 = \<lparr>dataBuffer = map bytes [0 ..< unat (cs * n)], numberOfCell = n, cellSize = cs,
            indexInput = 0, indexOutput = 0, isOverwriting = ow\<rparr>"
    by (rule NewRingBufferWithOverwriting_Some)
  have "unat n * unat cs = unat (cs * n)" using len rb0 by simp
  then have fits: "unat n * unat cs < 2 ^ 32"
    using unsigned_less [of "cs * n", where 'a = nat] by simp
  show ?thesis
    using pos fits len by (simp add: inUse_def wellSized_def countsCells_def rb0)
qed


text \<open>
  In particular sequences of calls do run from a constructed buffer: every
  sequence of calls whose blocks hold a cell is defined as long as its length times
  \<open>cellSize\<close> stays below \<open>2 ^ 32\<close>.
\<close>

lemma run_from_construction:
  assumes "NETWORK_NewRingBufferWithOverwriting structAlloc dataAlloc n cs ow = Some rb0"
    and "0 < n" "0 < cs"
    and "length (dataBuffer rb0) = unat n * unat cs"
    and "\<forall>x\<in>set calls. holdsCell rb0 x"
    and "length calls * unat (cellSize rb0) < 2 ^ 32"
  shows "\<exists>rb. run rb0 calls = Some rb"
  using run_defined [OF constructed_inUse [OF assms(1-4)], of calls] assms(5,6) by auto

text \<open>
  C1, amended. A buffer is constructed with positive sizes such that
  \<open>cellCount \<times> cellSize < 2 ^ 32\<close> (the storage then has \<open>cellCount \<times> cellSize\<close> bytes).
  After every sequence of calls of \<open>PushBack\<close>, \<open>PopFront\<close> and \<open>Front\<close> on the fresh
  buffer none of which is undefined (none copies outside the storage or a block), the
  occupied byte count \<open>indexInput - indexOutput\<close>, an \<open>unsigned int\<close>, is at most
  \<open>cellCount \<times> cellSize\<close> and a multiple of \<open>cellSize\<close>; every prefix of such a sequence
  is such a sequence, so this holds after every call. And no call of a sequence is
  undefined when every block passed holds at least \<open>cellSize\<close> bytes (\<open>Front\<close> is given
  no null destination) and the number of calls times \<open>cellSize\<close> is less than \<open>2 ^ 32\<close>.
\<close>

theorem occupied_within_capacity:
  assumes new: "NETWORK_NewRingBufferWithOverwriting structAlloc dataAlloc n cs ow = Some rb0"
    and pos: "0 < n" "0 < cs"
    and fits: "unat n * unat cs < 2 ^ 32"
  shows "(run rb0 calls = Some rb \<longrightarrow>
            unat (occupied rb) \<le> unat n * unat cs \<and> unat cs dvd unat (occupied rb))
    \<and> ((\<forall>x\<in>set calls. holdsCell rb0 x) \<and> length calls * unat cs < 2 ^ 32 \<longrightarrow>
            (\<exists>rb'. run rb0 calls = Some rb'))"
proof (intro conjI impI)
  from new obtain bytes where rb0:
    "rb0 = \<lparr>dataBuffer = map bytes [0 ..< unat (cs * n)], numberOfCell = n, cellSize = cs,
            indexInput = 0, indexOutput = 0, isOverwriting = ow\<rparr>"
    by (rule NewRingBufferWithOverwriting_Some)
  have "unat (cs * n) = unat n * unat cs"
    using unat_capacity [OF fits] by (simp add: mult.commute)
  then have len: "length (dataBuffer rb0) = unat n * unat cs" by (simp add: rb0)
  have ok0: "occupancy_ok rb0"
    using pos fits by (simp add: occupancy_ok_def rb0 occupied_def)
  {
    assume run: "run rb0 calls = Some rb"
    from run_occupancy_ok [OF run ok0]
    have ok: "occupancy_ok rb" "numberOfCell rb = n" "cellSize rb = cs"
      by (simp_all add: rb0)
    show "unat (occupied rb) \<le> unat n * unat cs"
      using ok by (simp add: occupancy_ok_def)
    show "unat cs dvd unat (occupied rb)"
      using ok by (simp add: occupancy_ok_def)
  }
  {
    assume h: "(\<forall>x\<in>set calls. holdsCell rb0 x) \<and> length calls * unat cs < 2 ^ 32"
    have "cellSize rb0 = cs" by (simp add: rb0)
    then show "\<exists>rb'. run rb0 calls = Some rb'"
      using run_from_construction [OF new pos len, of calls] h by simp
  }
qed

theorem occupied_within_capacity_witness:
  "NETWORK_NewRingBufferWithOverwriting True (Some zero_bytes) 2 4 1 = Some (buffer_2x4 1)
   \<and> run (buffer_2x4 1)
        [PushBack cell_1, PushBack cell_2, PushBack cell_3, PopFront None, Front (Some dest_4)]
     = Some (held_2x4 (cell_3 @ cell_2) 12 8 1)
   \<and> unat (occupied (held_2x4 (cell_3 @ cell_2) 12 8 1)) = 4
   \<and> unat (occupied (held_2x4 (cell_3 @ cell_2) 12 8 1)) \<le> unat (2 :: uint) * unat (4 :: uint)
   \<and> unat (4 :: uint) dvd unat (occupied (held_2x4 (cell_3 @ cell_2) 12 8 1))
   \<and> (\<exists>rb'. run (buffer_2x4 1)
        [PushBack cell_1, PushBack cell_2, PushBack cell_3, PopFront None, Front (Some dest_4)]
       = Some rb')"
proof -
  let ?calls = "[PushBack cell_1, PushBack cell_2, PushBack cell_3, PopFront None,
    Front (Some dest_4)]"
  have new: "NETWORK_NewRingBufferWithOverwriting True (Some zero_bytes) 2 4 1
      = Some (buffer_2x4 1)"
    by (simp add: NETWORK_NewRingBufferWithOverwriting_def zero_bytes_def buffer_2x4_def upt_rec)
  have run: "run (buffer_2x4 1) ?calls = Some (held_2x4 (cell_3 @ cell_2) 12 8 1)"
    by code_simp
  have fits: "unat (2 :: uint) * unat (4 :: uint) < 2 ^ 32" by simp
  have pos: "0 < (2 :: uint)" "0 < (4 :: uint)" by simp_all
  note inv = occupied_within_capacity [OF new pos fits,
      of ?calls "held_2x4 (cell_3 @ cell_2) 12 8 1"]
  note bound = inv [THEN conjunct1, THEN mp, OF run]
  have h: "(\<forall>x\<in>set ?calls. holdsCell (buffer_2x4 1) x)
      \<and> length ?calls * unat (4 :: uint) < 2 ^ 32"
    by (simp add: buffer_2x4_def cell_1_def cell_2_def cell_3_def dest_4_def)
  note defined = inv [THEN conjunct2, THEN mp, OF h]
  have occ: "unat (occupied (held_2x4 (cell_3 @ cell_2) 12 8 1)) = 4"
    by (simp add: occupied_def)
  show ?thesis
    by (intro conjI new run occ bound [THEN conjunct1] bound [THEN conjunct2] defined)
qed

section \<open>The buffer as a queue of cells\<close>

lemma steady_nat:
  assumes "steady rb"
  shows "0 < unat (cellSize rb)" and "0 < unat (numberOfCell rb)"
    and "unat (indexOutput rb) = oldest rb * unat (cellSize rb)"
    and "unat (occupied rb) = held rb * unat (cellSize rb)"
    and "unat (indexInput rb) = (oldest rb + held rb) * unat (cellSize rb)"
    and "held rb \<le> unat (numberOfCell rb)"
proof -
  let ?C = "unat (cellSize rb)" and ?N = "unat (numberOfCell rb)"
  have w: "wellSized rb" and o: "occupancy_ok rb"
    and co: "?C dvd unat (indexOutput rb)"
    and io: "unat (indexOutput rb) + unat (occupied rb) = unat (indexInput rb)"
    using assms by (simp_all add: steady_def countsCells_def)
  show c: "0 < ?C" and "0 < ?N" using w by (simp_all add: wellSized_def word_less_nat_alt)
  show out: "unat (indexOutput rb) = oldest rb * ?C"
    using co by (simp add: oldest_def)
  have "?C dvd unat (occupied rb)" using o by (simp add: occupancy_ok_def)
  then show occ: "unat (occupied rb) = held rb * ?C" by (simp add: held_def)
  show "unat (indexInput rb) = (oldest rb + held rb) * ?C"
    using io out occ by (simp add: algebra_simps)
  have "held rb * ?C \<le> ?N * ?C" using o occ by (simp add: occupancy_ok_def)
  then show "held rb \<le> ?N" using c by simp
qed

lemma offset_of_slot:
  assumes w: "wellSized rb" and i: "unat index = k * unat (cellSize rb)"
  shows "unat (index mod (numberOfCell rb * cellSize rb))
    = (k mod unat (numberOfCell rb)) * unat (cellSize rb)"
proof -
  have "unat (index mod (numberOfCell rb * cellSize rb))
      = (k * unat (cellSize rb)) mod (unat (numberOfCell rb) * unat (cellSize rb))"
    using i by (simp add: unat_mod wellSized_capacity(1) [OF w])
  then show ?thesis by simp
qed

lemma slot_inside:
  assumes "wellSized rb"
  shows "(k mod unat (numberOfCell rb)) * unat (cellSize rb) + unat (cellSize rb)
    \<le> length (dataBuffer rb)"
proof -
  let ?C = "unat (cellSize rb)" and ?N = "unat (numberOfCell rb)"
  have n: "0 < ?N" and len: "length (dataBuffer rb) = ?N * ?C"
    using assms by (simp_all add: wellSized_def word_less_nat_alt)
  have "Suc (k mod ?N) \<le> ?N" using n by (simp add: Suc_leI)
  then have "Suc (k mod ?N) * ?C \<le> ?N * ?C" by (rule mult_le_mono1)
  then show ?thesis using len by simp
qed


lemma cellAt_written:
  assumes "length x = len" and "a + len \<le> length block"
  shows "cellAt (take a block @ x @ drop (a + len) block) a len = x"
  using assms by (simp add: cellAt_def)

lemma cellAt_beside:
  assumes "length x = len" and "a + len \<le> length block"
    and "b + len \<le> a \<or> a + len \<le> b"
  shows "cellAt (take a block @ x @ drop (a + len) block) b len = cellAt block b len"
proof -
  from assms(3) show ?thesis
  proof
    assume "b + len \<le> a"
    then obtain e where a: "a = b + len + e" by (auto simp: le_iff_add)
    have "take len (drop b (take a block)) = take len (drop b block)"
      unfolding a by (simp add: drop_take add.assoc)
    then show ?thesis using assms(1,2) a by (simp add: cellAt_def)
  next
    assume "a + len \<le> b"
    then obtain e where b: "b = a + len + e" by (auto simp: le_iff_add)
    show ?thesis using assms(1,2) unfolding b by (simp add: cellAt_def ac_simps)
  qed
qed

lemma slots_differ:
  fixes a b N :: nat
  assumes "a < b" and "b - a < N"
  shows "a mod N \<noteq> b mod N"
proof
  assume "a mod N = b mod N"
  then have "N dvd b - a" by (metis mod_eq_dvd_iff_nat assms(1) less_imp_le)
  moreover have "0 < b - a" using assms(1) by simp
  ultimately have "N \<le> b - a" by (rule dvd_imp_le)
  then show False using assms(2) by simp
qed

text \<open>Writing a cell into slot \<open>j mod cellCount\<close> changes that slot and no other.\<close>

lemma slotCell_written:
  assumes w: "wellSized rb" and x: "length x = unat (cellSize rb)"
    and sizes: "numberOfCell rb' = numberOfCell rb" "cellSize rb' = cellSize rb"
    and store: "dataBuffer rb'
      = take ((j mod unat (numberOfCell rb)) * unat (cellSize rb)) (dataBuffer rb) @ x
        @ drop ((j mod unat (numberOfCell rb)) * unat (cellSize rb) + unat (cellSize rb))
            (dataBuffer rb)"
  shows "slotCell rb' k
    = (if k mod unat (numberOfCell rb) = j mod unat (numberOfCell rb) then x else slotCell rb k)"
proof -
  let ?C = "unat (cellSize rb)" and ?N = "unat (numberOfCell rb)"
  let ?s = "j mod ?N" and ?t = "k mod ?N"
  note inside = slot_inside [OF w, of j]
  show ?thesis
  proof (cases "?t = ?s")
    case True
    then show ?thesis
      using cellAt_written [OF x inside] by (simp add: slotCell_def sizes store)
  next
    case False
    then have "?t < ?s \<or> ?s < ?t" by auto
    then have "Suc ?t \<le> ?s \<or> Suc ?s \<le> ?t" by auto
    then have "Suc ?t * ?C \<le> ?s * ?C \<or> Suc ?s * ?C \<le> ?t * ?C"
      using mult_le_mono1 by blast
    then have "?t * ?C + ?C \<le> ?s * ?C \<or> ?s * ?C + ?C \<le> ?t * ?C" by (simp add: add.commute)
    then have "cellAt (dataBuffer rb') (?t * ?C) ?C = cellAt (dataBuffer rb) (?t * ?C) ?C"
      unfolding store using x inside by (intro cellAt_beside) simp_all
    then show ?thesis using False by (simp add: slotCell_def sizes)
  qed
qed


lemma held_full_iff:
  assumes "steady rb"
  shows "(numberOfCell rb - occupied rb div cellSize rb = 0) = (held rb = unat (numberOfCell rb))"
proof -
  have o: "occupancy_ok rb" and w: "wellSized rb" using assms by (simp_all add: steady_def)
  have "(numberOfCell rb - occupied rb div cellSize rb = 0)
      = (occupied rb = numberOfCell rb * cellSize rb)"
    using o by (intro free_cells_zero_iff) (simp_all add: occupancy_ok_def)
  also have "\<dots> = (unat (occupied rb) = unat (numberOfCell rb) * unat (cellSize rb))"
    by (simp add: word_unat_eq_iff wellSized_capacity(1) [OF w])
  also have "\<dots> = (held rb = unat (numberOfCell rb))"
    using steady_nat(1,4) [OF assms] by simp
  finally show ?thesis .
qed

lemma queued_length: "length (queued rb) = held rb"
  by (simp add: queued_def)

lemma steady_input_countsCells:
  assumes "steady rb"
  shows "countsCells rb (indexInput rb)"
  using steady_nat(5) [OF assms] by (simp add: countsCells_def)

text \<open>
  \<open>PushBack\<close> with a free cell appends the new cell to the queue.
\<close>

lemma PushBack_enqueues:
  assumes st: "steady rb" and room: "held rb < unat (numberOfCell rb)"
    and d: "unat (cellSize rb) \<le> length d"
    and nowrap: "unat (indexInput rb) + unat (cellSize rb) < 2 ^ 32"
  obtains rb' where "NETWORK_RingBuffPushBack rb d = Some (NETWORK_OK, rb')"
    and "steady rb'" and "queued rb' = queued rb @ [take (unat (cellSize rb)) d]"
    and "numberOfCell rb' = numberOfCell rb" and "cellSize rb' = cellSize rb"
    and "isOverwriting rb' = isOverwriting rb"
    and "indexInput rb' = indexInput rb + cellSize rb" and "indexOutput rb' = indexOutput rb"
proof -
  let ?C = "unat (cellSize rb)" and ?N = "unat (numberOfCell rb)"
  let ?j = "oldest rb + held rb"
  let ?x = "take ?C d"
  have w: "wellSized rb" and o: "occupancy_ok rb" and co: "countsCells rb (indexOutput rb)"
    and io: "unat (indexOutput rb) + unat (occupied rb) = unat (indexInput rb)"
    using st by (simp_all add: steady_def)
  note nat = steady_nat [OF st]
  note cap = wellSized_capacity [OF w]
  have free: "numberOfCell rb - occupied rb div cellSize rb \<noteq> 0"
    using held_full_iff [OF st] room by simp
  have off: "unat (indexInput rb mod (numberOfCell rb * cellSize rb)) = (?j mod ?N) * ?C"
    using nat(5) by (rule offset_of_slot [OF w])
  let ?S' = "take ((?j mod ?N) * ?C) (dataBuffer rb) @ ?x
      @ drop ((?j mod ?N) * ?C + ?C) (dataBuffer rb)"
  let ?rb' = "rb\<lparr>dataBuffer := ?S', indexInput := indexInput rb + cellSize rb\<rparr>"
  have m: "memcpy (dataBuffer rb) ((?j mod ?N) * ?C) d 0 ?C = Some ?S'"
    using slot_inside [OF w, of ?j] d by (simp add: memcpy_def)
  have push: "NETWORK_RingBuffPushBack rb d = Some (NETWORK_OK, ?rb')"
    using PushBack_room [OF cap(3) free, of d] cap(2) off m by simp
  have x: "length ?x = ?C" using d by simp
  have "length ?S' = length (dataBuffer rb)"
    using memcpy_length [OF m] .
  then have w': "wellSized ?rb'"
    by (intro wellSized_update [OF w]) simp_all
  have o': "occupancy_ok ?rb'" using push o by (rule PushBack_occupancy_ok)
  have occ': "unat (occupied ?rb') = unat (occupied rb) + ?C"
  proof -
    have "Suc (held rb) * ?C \<le> ?N * ?C" using room by (intro mult_le_mono1) simp
    then have "unat (occupied rb) + ?C \<le> ?N * ?C" using nat(4) by simp
    moreover have "?N * ?C < 2 ^ 32" using w by (simp add: wellSized_def)
    ultimately have "unat (occupied rb) + ?C < 2 ^ 32" by simp
    then have "unat (occupied rb + cellSize rb) = unat (occupied rb) + ?C"
      using unat_add_lem [of "occupied rb" "cellSize rb"] by simp
    moreover have "occupied ?rb' = occupied rb + cellSize rb"
      by (simp add: occupied_def)
    ultimately show ?thesis by simp
  qed
  have in': "unat (indexInput ?rb') = unat (indexInput rb) + ?C"
    using nowrap unat_add_lem [of "indexInput rb" "cellSize rb"] by simp
  have st': "steady ?rb'"
    unfolding steady_def using w' o' co io occ' in' by (simp add: countsCells_def)
  have old': "oldest ?rb' = oldest rb" by (simp add: oldest_def)
  have held': "held ?rb' = Suc (held rb)"
  proof -
    have "held ?rb' = unat (occupied ?rb') div ?C" by (simp only: held_def) simp
    also have "\<dots> = (held rb * ?C + ?C) div ?C" by (simp only: occ' nat(4))
    also have "\<dots> = Suc (held rb)" using nat(1) by simp
    finally show ?thesis .
  qed
  have slot: "slotCell ?rb' k = (if k mod ?N = ?j mod ?N then ?x else slotCell rb k)" for k
    by (rule slotCell_written [OF w x]) simp_all
  have kept: "slotCell ?rb' (oldest rb + i) = slotCell rb (oldest rb + i)" if "i < held rb" for i
  proof -
    have "(oldest rb + i) mod ?N \<noteq> ?j mod ?N"
      using that room by (intro slots_differ) simp_all
    then show ?thesis by (simp add: slot)
  qed
  have "queued ?rb' = map (\<lambda>i. slotCell ?rb' (oldest rb + i)) [0 ..< held rb]
      @ [slotCell ?rb' ?j]"
    by (simp add: queued_def old' held')
  also have "map (\<lambda>i. slotCell ?rb' (oldest rb + i)) [0 ..< held rb] = queued rb"
    unfolding queued_def by (rule map_cong [OF refl]) (simp add: kept)
  also have "slotCell ?rb' ?j = ?x" by (simp add: slot)
  finally have q': "queued ?rb' = queued rb @ [?x]" .
  show ?thesis
    by (rule that [OF push st' q']) simp_all
qed


text \<open>
  \<open>PushBack\<close> on a full buffer that overwrites drops the oldest cell of the queue and
  appends the new one.
\<close>

lemma PushBack_replaces_oldest:
  assumes st: "steady rb" and full: "held rb = unat (numberOfCell rb)"
    and ow: "isOverwriting rb \<noteq> 0"
    and d: "unat (cellSize rb) \<le> length d"
    and nowrap: "unat (indexInput rb) + unat (cellSize rb) < 2 ^ 32"
  obtains rb' where "NETWORK_RingBuffPushBack rb d = Some (NETWORK_OK, rb')"
    and "steady rb'" and "queued rb' = tl (queued rb) @ [take (unat (cellSize rb)) d]"
    and "numberOfCell rb' = numberOfCell rb" and "cellSize rb' = cellSize rb"
    and "isOverwriting rb' = isOverwriting rb"
    and "indexInput rb' = indexInput rb + cellSize rb"
    and "indexOutput rb' = indexOutput rb + cellSize rb"
proof -
  let ?C = "unat (cellSize rb)" and ?N = "unat (numberOfCell rb)"
  let ?j = "oldest rb + held rb"
  let ?x = "take ?C d"
  have w: "wellSized rb" and o: "occupancy_ok rb" and co: "countsCells rb (indexOutput rb)"
    and io: "unat (indexOutput rb) + unat (occupied rb) = unat (indexInput rb)"
    using st by (simp_all add: steady_def)
  note nat = steady_nat [OF st]
  note cap = wellSized_capacity [OF w]
  have fz: "numberOfCell rb - occupied rb div cellSize rb = 0"
    using held_full_iff [OF st] full by simp
  have off: "unat (indexInput rb mod (numberOfCell rb * cellSize rb)) = (?j mod ?N) * ?C"
    using nat(5) by (rule offset_of_slot [OF w])
  let ?S' = "take ((?j mod ?N) * ?C) (dataBuffer rb) @ ?x
      @ drop ((?j mod ?N) * ?C + ?C) (dataBuffer rb)"
  define rb' where "rb' = rb\<lparr>indexOutput := indexOutput rb + cellSize rb, dataBuffer := ?S',
      indexInput := indexInput rb + cellSize rb\<rparr>"
  have f: "numberOfCell rb' = numberOfCell rb" "cellSize rb' = cellSize rb"
    "isOverwriting rb' = isOverwriting rb" "indexInput rb' = indexInput rb + cellSize rb"
    "indexOutput rb' = indexOutput rb + cellSize rb" "dataBuffer rb' = ?S'"
    by (simp_all add: rb'_def)
  have m: "memcpy (dataBuffer rb) ((?j mod ?N) * ?C) d 0 ?C = Some ?S'"
    using slot_inside [OF w, of ?j] d by (simp add: memcpy_def)
  have push: "NETWORK_RingBuffPushBack rb d = Some (NETWORK_OK, rb')"
    using PushBack_over [OF cap(3) fz ow, of d] cap(2) off m by (simp add: rb'_def)
  have x: "length ?x = ?C" using d by simp
  have "length ?S' = length (dataBuffer rb)"
    using memcpy_length [OF m] .
  then have w': "wellSized rb'"
    by (intro wellSized_update [OF w]) (simp_all add: f)
  have o': "occupancy_ok rb'" using push o by (rule PushBack_occupancy_ok)
  have occ': "occupied rb' = occupied rb" by (simp add: occupied_def f)
  have in': "unat (indexInput rb') = unat (indexInput rb) + ?C"
    using nowrap unat_add_lem [of "indexInput rb" "cellSize rb"] by (simp add: f)
  have out': "unat (indexOutput rb') = unat (indexOutput rb) + ?C"
  proof -
    have "unat (indexOutput rb) + ?C \<le> unat (indexInput rb) + ?C" using io by simp
    then have "unat (indexOutput rb) + ?C < 2 ^ 32" using nowrap by simp
    then show ?thesis using unat_add_lem [of "indexOutput rb" "cellSize rb"] by (simp add: f)
  qed
  have co': "countsCells rb' (indexOutput rb')"
    using co out' by (simp add: countsCells_def f)
  have st': "steady rb'"
    unfolding steady_def using w' o' co' io in' out' by (simp add: occ')
  have old': "oldest rb' = Suc (oldest rb)"
  proof -
    have "oldest rb' = unat (indexOutput rb') div ?C" by (simp only: oldest_def f)
    also have "\<dots> = (oldest rb * ?C + ?C) div ?C" by (simp only: out' nat(3))
    also have "\<dots> = Suc (oldest rb)" using nat(1) by simp
    finally show ?thesis .
  qed
  have held': "held rb' = held rb"
  proof -
    have "held rb' = unat (occupied rb') div ?C" by (simp only: held_def f)
    also have "\<dots> = unat (occupied rb) div ?C" by (simp only: occ')
    also have "\<dots> = held rb" by (simp only: held_def)
    finally show ?thesis .
  qed
  have slot: "slotCell rb' k = (if k mod ?N = ?j mod ?N then ?x else slotCell rb k)" for k
    by (rule slotCell_written [OF w x]) (simp_all add: f)
  have "0 < held rb" using full nat(2) by simp
  then obtain h where h: "held rb = Suc h" by (auto simp: gr0_conv_Suc)
  have kept: "slotCell rb' (Suc (oldest rb + i)) = slotCell rb (Suc (oldest rb + i))"
    if "i < h" for i
  proof -
    have "Suc (oldest rb + i) mod ?N \<noteq> ?j mod ?N"
      using that h full by (intro slots_differ) simp_all
    then show ?thesis by (simp add: slot)
  qed
  have "queued rb' = map (\<lambda>i. slotCell rb' (Suc (oldest rb) + i)) [0 ..< h]
      @ [slotCell rb' (Suc (oldest rb) + h)]"
    by (simp add: queued_def old' held' h)
  also have "map (\<lambda>i. slotCell rb' (Suc (oldest rb) + i)) [0 ..< h]
      = map (\<lambda>i. slotCell rb (oldest rb + Suc i)) [0 ..< h]"
    by (rule map_cong [OF refl]) (simp add: kept)
  also have "\<dots> = tl (queued rb)"
    unfolding queued_def h by (simp only: map_upt_Suc list.sel)
  also have "slotCell rb' (Suc (oldest rb) + h) = ?x"
    using h by (simp add: slot)
  finally have q': "queued rb' = tl (queued rb) @ [?x]" .
  show ?thesis
    by (rule that [OF push st' q']) (simp_all add: f)
qed


lemma held_empty_iff:
  assumes "steady rb"
  shows "(indexInput rb = indexOutput rb) = (held rb = 0)"
proof -
  have "(indexInput rb = indexOutput rb) = (occupied rb = 0)" by (simp add: occupied_def)
  also have "\<dots> = (unat (occupied rb) = 0)" by (simp add: unat_eq_zero)
  also have "\<dots> = (held rb = 0)" using steady_nat(1,4) [OF assms] by simp
  finally show ?thesis .
qed

lemma oldest_is_head:
  assumes "0 < held rb"
  shows "slotCell rb (oldest rb) = hd (queued rb)"
proof -
  obtain h where "held rb = Suc h" using assms by (auto simp: gr0_conv_Suc)
  then show ?thesis by (simp add: queued_def map_upt_Suc del: upt_Suc)
qed

lemma read_oldest:
  assumes st: "steady rb" and ne: "0 < held rb" and d: "unat (cellSize rb) \<le> length d"
  shows "memcpy d 0 (dataBuffer rb)
      (unat (indexOutput rb mod (numberOfCell rb * cellSize rb))) (unat (cellSize rb))
    = Some (hd (queued rb) @ drop (unat (cellSize rb)) d)"
proof -
  have w: "wellSized rb" using st by (simp add: steady_def)
  have off: "unat (indexOutput rb mod (numberOfCell rb * cellSize rb))
      = (oldest rb mod unat (numberOfCell rb)) * unat (cellSize rb)"
    using steady_nat(3) [OF st] by (rule offset_of_slot [OF w])
  have "memcpy d 0 (dataBuffer rb)
      ((oldest rb mod unat (numberOfCell rb)) * unat (cellSize rb)) (unat (cellSize rb))
    = Some (slotCell rb (oldest rb) @ drop (unat (cellSize rb)) d)"
    using slot_inside [OF w, of "oldest rb"] d by (simp add: memcpy_def slotCell_def cellAt_def)
  then show ?thesis by (simp only: off oldest_is_head [OF ne])
qed

text \<open>
  \<open>PopFront\<close> on a buffer that holds a cell removes the oldest cell of the queue and,
  given a destination, copies it there.
\<close>

lemma PopFront_dequeues:
  assumes st: "steady rb" and ne: "0 < held rb"
    and d: "\<forall>dst. pPopData = Some dst \<longrightarrow> unat (cellSize rb) \<le> length dst"
  obtains rb' where
    "NETWORK_RingBuffPopFront rb pPopData
      = Some (NETWORK_OK, rb',
          map_option (\<lambda>dst. hd (queued rb) @ drop (unat (cellSize rb)) dst) pPopData)"
    and "steady rb'" and "queued rb' = tl (queued rb)"
    and "numberOfCell rb' = numberOfCell rb" and "cellSize rb' = cellSize rb"
    and "isOverwriting rb' = isOverwriting rb"
    and "indexInput rb' = indexInput rb"
    and "indexOutput rb' = indexOutput rb + cellSize rb"
proof -
  let ?C = "unat (cellSize rb)" and ?N = "unat (numberOfCell rb)"
  have w: "wellSized rb" and o: "occupancy_ok rb" and co: "countsCells rb (indexOutput rb)"
    and io: "unat (indexOutput rb) + unat (occupied rb) = unat (indexInput rb)"
    using st by (simp_all add: steady_def)
  note nat = steady_nat [OF st]
  note cap = wellSized_capacity [OF w]
  have differ: "indexInput rb \<noteq> indexOutput rb"
    using held_empty_iff [OF st] ne by simp
  define rb' where "rb' = rb\<lparr>indexOutput := indexOutput rb + cellSize rb\<rparr>"
  have f: "numberOfCell rb' = numberOfCell rb" "cellSize rb' = cellSize rb"
    "isOverwriting rb' = isOverwriting rb" "indexInput rb' = indexInput rb"
    "indexOutput rb' = indexOutput rb + cellSize rb" "dataBuffer rb' = dataBuffer rb"
    by (simp_all add: rb'_def)
  have pop: "NETWORK_RingBuffPopFront rb pPopData
      = Some (NETWORK_OK, rb',
          map_option (\<lambda>dst. hd (queued rb) @ drop ?C dst) pPopData)"
  proof (cases pPopData)
    case None
    then show ?thesis using PopFront_discard [OF differ] by (simp add: rb'_def)
  next
    case (Some dst)
    then have "?C \<le> length dst" using d by simp
    then show ?thesis
      using PopFront_copy [OF differ, of dst] cap(2) read_oldest [OF st ne] Some
      by (simp add: rb'_def)
  qed
  have w': "wellSized rb'" by (intro wellSized_update [OF w]) (simp_all add: f)
  have o': "occupancy_ok rb'" using pop o by (rule PopFront_occupancy_ok)
  have some: "?C \<le> unat (occupied rb)"
  proof -
    have "1 * ?C \<le> held rb * ?C" using ne by (intro mult_le_mono1) simp
    then show ?thesis using nat(4) by simp
  qed
  have out': "unat (indexOutput rb') = unat (indexOutput rb) + ?C"
  proof -
    have "unat (indexOutput rb) + ?C \<le> unat (indexInput rb)" using io some by simp
    moreover have "unat (indexInput rb) < 2 ^ 32"
      using unsigned_less [of "indexInput rb", where 'a = nat] by simp
    ultimately have "unat (indexOutput rb) + ?C < 2 ^ 32" by simp
    then show ?thesis using unat_add_lem [of "indexOutput rb" "cellSize rb"] by (simp add: f)
  qed
  have occ': "unat (occupied rb') = unat (occupied rb) - ?C"
  proof -
    have "cellSize rb \<le> occupied rb" using some by (simp add: word_le_nat_alt)
    then have "unat (occupied rb - cellSize rb) = unat (occupied rb) - ?C" by (rule unat_sub)
    moreover have "occupied rb' = occupied rb - cellSize rb" by (simp add: occupied_def f)
    ultimately show ?thesis by simp
  qed
  have co': "countsCells rb' (indexOutput rb')"
    using co out' by (simp add: countsCells_def f)
  have io': "unat (indexOutput rb') + unat (occupied rb') = unat (indexInput rb')"
    using io some out' occ' by (simp add: f)
  have st': "steady rb'"
    unfolding steady_def using w' o' co' io' by simp
  obtain h where h: "held rb = Suc h" using ne by (auto simp: gr0_conv_Suc)
  have old': "oldest rb' = Suc (oldest rb)"
  proof -
    have "oldest rb' = unat (indexOutput rb') div ?C" by (simp only: oldest_def f)
    also have "\<dots> = (oldest rb * ?C + ?C) div ?C" by (simp only: out' nat(3))
    also have "\<dots> = Suc (oldest rb)" using nat(1) by simp
    finally show ?thesis .
  qed
  have held': "held rb' = h"
  proof -
    have "held rb' = unat (occupied rb') div ?C" by (simp only: held_def f)
    also have "\<dots> = (Suc h * ?C - ?C) div ?C" by (simp only: occ' nat(4) h)
    also have "\<dots> = h" using nat(1) by simp
    finally show ?thesis .
  qed
  have same: "slotCell rb' k = slotCell rb k" for k
    by (simp add: slotCell_def f)
  have "queued rb' = map (\<lambda>i. slotCell rb (Suc (oldest rb + i))) [0 ..< h]"
    by (simp add: queued_def old' held' same)
  also have "\<dots> = tl (queued rb)"
    unfolding queued_def h by (simp add: map_upt_Suc del: upt_Suc)
  finally have q': "queued rb' = tl (queued rb)" .
  show ?thesis
    by (rule that [OF pop st' q']) (simp_all add: f)
qed

text \<open>\<open>Front\<close> on a buffer that holds a cell copies the oldest cell of the queue.\<close>

lemma Front_reads_oldest:
  assumes st: "steady rb" and ne: "0 < held rb" and d: "unat (cellSize rb) \<le> length dst"
  shows "NETWORK_RingBuffFront rb (Some dst)
    = Some (NETWORK_OK, rb, Some (hd (queued rb) @ drop (unat (cellSize rb)) dst))"
proof -
  have w: "wellSized rb" using st by (simp add: steady_def)
  have differ: "indexInput rb \<noteq> indexOutput rb"
    using held_empty_iff [OF st] ne by simp
  show ?thesis
    using Front_copy [OF wellSized_capacity(2) [OF w] differ, of dst] read_oldest [OF st ne d]
    by simp
qed

lemma constructed_steady:
  assumes new: "NETWORK_NewRingBufferWithOverwriting structAlloc dataAlloc n cs ow = Some rb0"
    and pos: "0 < n" "0 < cs"
    and len: "length (dataBuffer rb0) = unat n * unat cs"
  shows "steady rb0" and "queued rb0 = []"
proof -
  from new obtain bytes where rb0:
    "rb0 = \<lparr>dataBuffer = map bytes [0 ..< unat (cs * n)], numberOfCell = n, cellSize = cs,
            indexInput = 0, indexOutput = 0, isOverwriting = ow\<rparr>"
    by (rule NewRingBufferWithOverwriting_Some)
  have "unat n * unat cs = unat (cs * n)" using len rb0 by simp
  then have fits: "unat n * unat cs < 2 ^ 32"
    using unsigned_less [of "cs * n", where 'a = nat] by simp
  show "steady rb0"
    using pos fits len
    by (simp add: steady_def wellSized_def occupancy_ok_def countsCells_def occupied_def rb0)
  show "queued rb0 = []"
    by (simp add: queued_def held_def occupied_def rb0)
qed


subsection \<open>Several calls\<close>

lemma push_cells_enqueues:
  assumes "steady rb" and "held rb + length cells \<le> unat (numberOfCell rb)"
    and "\<forall>c\<in>set cells. unat (cellSize rb) \<le> length c"
    and "unat (indexInput rb) + length cells * unat (cellSize rb) < 2 ^ 32"
  shows "\<exists>rb'. push_cells rb cells = Some (replicate (length cells) NETWORK_OK, rb')
    \<and> steady rb' \<and> queued rb' = queued rb @ map (take (unat (cellSize rb))) cells
    \<and> numberOfCell rb' = numberOfCell rb \<and> cellSize rb' = cellSize rb
    \<and> isOverwriting rb' = isOverwriting rb
    \<and> unat (indexInput rb') = unat (indexInput rb) + length cells * unat (cellSize rb)"
  using assms
proof (induction cells arbitrary: rb)
  case Nil
  then show ?case by simp
next
  case (Cons c cells)
  let ?C = "unat (cellSize rb)"
  have room: "held rb < unat (numberOfCell rb)" using Cons.prems(2) by simp
  have c: "?C \<le> length c" using Cons.prems(3) by simp
  have nowrap: "unat (indexInput rb) + ?C < 2 ^ 32" using Cons.prems(4) by simp
  from Cons.prems(1) room c nowrap obtain rb1 where
    push: "NETWORK_RingBuffPushBack rb c = Some (NETWORK_OK, rb1)"
    and st1: "steady rb1" and q1: "queued rb1 = queued rb @ [take ?C c]"
    and f: "numberOfCell rb1 = numberOfCell rb" "cellSize rb1 = cellSize rb"
      "isOverwriting rb1 = isOverwriting rb" "indexInput rb1 = indexInput rb + cellSize rb"
    by (rule PushBack_enqueues)
  have in1: "unat (indexInput rb1) = unat (indexInput rb) + ?C"
    using nowrap unat_add_lem [of "indexInput rb" "cellSize rb"] by (simp add: f)
  have held1: "held rb1 = Suc (held rb)"
    using queued_length [of rb1] queued_length [of rb] by (simp add: q1)
  have "\<exists>rb'. push_cells rb1 cells = Some (replicate (length cells) NETWORK_OK, rb')
    \<and> steady rb' \<and> queued rb' = queued rb1 @ map (take (unat (cellSize rb1))) cells
    \<and> numberOfCell rb' = numberOfCell rb1 \<and> cellSize rb' = cellSize rb1
    \<and> isOverwriting rb' = isOverwriting rb1
    \<and> unat (indexInput rb') = unat (indexInput rb1) + length cells * unat (cellSize rb1)"
    using st1 Cons.prems(2,3,4) held1 in1 by (intro Cons.IH) (simp_all add: f)
  then obtain rb' where rest: "push_cells rb1 cells = Some (replicate (length cells) NETWORK_OK, rb')"
    and st': "steady rb'" and q': "queued rb' = queued rb1 @ map (take ?C) cells"
    and f': "numberOfCell rb' = numberOfCell rb" "cellSize rb' = cellSize rb"
      "isOverwriting rb' = isOverwriting rb"
    and in': "unat (indexInput rb') = unat (indexInput rb1) + length cells * ?C"
    by (auto simp: f)
  have "push_cells rb (c # cells) = Some (replicate (length (c # cells)) NETWORK_OK, rb')"
    by (simp add: push rest)
  moreover have "queued rb' = queued rb @ map (take ?C) (c # cells)"
    by (simp add: q' q1)
  moreover have "unat (indexInput rb') = unat (indexInput rb) + length (c # cells) * ?C"
    using in' in1 by simp
  ultimately show ?case using st' f' by blast
qed

lemma push_cells_snoc:
  "push_cells rb (cells @ [c])
    = (case push_cells rb cells of
         None \<Rightarrow> None
       | Some (es, rb') \<Rightarrow>
           (case NETWORK_RingBuffPushBack rb' c of
              None \<Rightarrow> None
            | Some (e, rb'') \<Rightarrow> Some (es @ [e], rb'')))"
  by (induction cells arbitrary: rb) (auto split: option.splits)

lemma pop_cells_dequeues:
  assumes "steady rb" and "length dsts \<le> held rb"
    and "\<forall>d\<in>set dsts. unat (cellSize rb) \<le> length d"
  shows "\<exists>rb'. pop_cells rb (map Some dsts)
      = Some (replicate (length dsts) NETWORK_OK, rb',
              map2 (\<lambda>c d. Some (c @ drop (unat (cellSize rb)) d)) (queued rb) dsts)
    \<and> steady rb' \<and> queued rb' = drop (length dsts) (queued rb)
    \<and> numberOfCell rb' = numberOfCell rb \<and> cellSize rb' = cellSize rb
    \<and> isOverwriting rb' = isOverwriting rb"
  using assms
proof (induction dsts arbitrary: rb)
  case Nil
  then show ?case by simp
next
  case (Cons d dsts)
  let ?C = "unat (cellSize rb)"
  have ne: "0 < held rb" using Cons.prems(2) by simp
  have d: "\<forall>dst. Some d = Some dst \<longrightarrow> ?C \<le> length dst" using Cons.prems(3) by simp
  from Cons.prems(1) ne d obtain rb1 where
    pop: "NETWORK_RingBuffPopFront rb (Some d)
      = Some (NETWORK_OK, rb1, map_option (\<lambda>dst. hd (queued rb) @ drop ?C dst) (Some d))"
    and st1: "steady rb1" and q1: "queued rb1 = tl (queued rb)"
    and f: "numberOfCell rb1 = numberOfCell rb" "cellSize rb1 = cellSize rb"
      "isOverwriting rb1 = isOverwriting rb"
    by (rule PopFront_dequeues)
  obtain c q where q: "queued rb = c # q"
    using ne queued_length [of rb] by (cases "queued rb") simp_all
  have held1: "held rb1 = held rb - 1"
    using queued_length [of rb1] queued_length [of rb] by (simp add: q1)
  have "\<exists>rb'. pop_cells rb1 (map Some dsts)
      = Some (replicate (length dsts) NETWORK_OK, rb',
              map2 (\<lambda>c d. Some (c @ drop (unat (cellSize rb1)) d)) (queued rb1) dsts)
    \<and> steady rb' \<and> queued rb' = drop (length dsts) (queued rb1)
    \<and> numberOfCell rb' = numberOfCell rb1 \<and> cellSize rb' = cellSize rb1
    \<and> isOverwriting rb' = isOverwriting rb1"
    using st1 Cons.prems(2,3) held1 by (intro Cons.IH) (simp_all add: f)
  then obtain rb' where rest: "pop_cells rb1 (map Some dsts)
      = Some (replicate (length dsts) NETWORK_OK, rb',
              map2 (\<lambda>c d. Some (c @ drop ?C d)) q dsts)"
    and st': "steady rb'" and q': "queued rb' = drop (length dsts) q"
    and f': "numberOfCell rb' = numberOfCell rb" "cellSize rb' = cellSize rb"
      "isOverwriting rb' = isOverwriting rb"
    by (auto simp: f q1 q)
  have "pop_cells rb (map Some (d # dsts))
      = Some (replicate (length (d # dsts)) NETWORK_OK, rb',
              map2 (\<lambda>c d. Some (c @ drop ?C d)) (queued rb) (d # dsts))"
    using pop rest by (simp add: q)
  moreover have "queued rb' = drop (length (d # dsts)) (queued rb)"
    by (simp add: q' q)
  ultimately show ?case using st' f' by blast
qed

lemma offset_in_3x4:
  fixes x :: uint
  shows "unat ((4 * x) mod 12) = 0 \<or> unat ((4 * x) mod 12) = 4 \<or> unat ((4 * x) mod 12) = 8"
proof -
  have "unat (4 * x) = (4 * unat x) mod 2 ^ 32"
    by (simp add: unat_word_ariths)
  moreover have "(4 :: nat) dvd (4 * unat x) mod 2 ^ 32"
    by (intro dvd_mod) simp_all
  ultimately have "4 dvd unat (4 * x)" by simp
  then have "4 dvd unat (4 * x) mod 12" by (intro dvd_mod) simp_all
  moreover have "unat ((4 * x) mod 12) = unat (4 * x) mod 12" by (simp add: unat_mod)
  moreover have "unat (4 * x) mod 12 < 12" by simp
  ultimately show ?thesis by presburger
qed

lemma push_pop_round_3x4:
  fixes x :: uint
  shows "run (idle_3x4 (4 * x)) [PushBack zero_cell, PopFront None]
    = Some (idle_3x4 (4 * (x + 1)))"
proof -
  let ?rb = "idle_3x4 (4 * x)"
  have free: "numberOfCell ?rb - occupied ?rb div cellSize ?rb \<noteq> 0"
    by (simp add: idle_3x4_def occupied_def)
  have m: "memcpy (dataBuffer ?rb) (unat (indexInput ?rb mod (numberOfCell ?rb * cellSize ?rb)))
      zero_cell 0 (unat (cellSize ?rb)) = Some (dataBuffer ?rb)"
    using offset_in_3x4 [of x] by (auto simp: idle_3x4_def memcpy_def zero_cell_def)
  have push: "NETWORK_RingBuffPushBack ?rb zero_cell
      = Some (NETWORK_OK, ?rb\<lparr>indexInput := 4 * x + 4\<rparr>)"
    using PushBack_room [OF _ free, of zero_cell] m by (simp add: idle_3x4_def)
  have ne: "indexInput (?rb\<lparr>indexInput := 4 * x + 4\<rparr>) \<noteq> indexOutput (?rb\<lparr>indexInput := 4 * x + 4\<rparr>)"
    by (simp add: idle_3x4_def)
  have pop: "NETWORK_RingBuffPopFront (?rb\<lparr>indexInput := 4 * x + 4\<rparr>) None
      = Some (NETWORK_OK, idle_3x4 (4 * (x + 1)), None)"
    using PopFront_discard [OF ne] by (simp add: idle_3x4_def algebra_simps)
  show ?thesis by (simp add: push pop)
qed

lemma push_pop_rounds_3x4_reach:
  "run (idle_3x4 (4 * x)) (push_pop_rounds k) = Some (idle_3x4 (4 * (x + of_nat k)))"
proof (induction k arbitrary: x)
  case 0
  then show ?case by (simp add: push_pop_rounds_def)
next
  case (Suc k)
  have "push_pop_rounds (Suc k) = [PushBack zero_cell, PopFront None] @ push_pop_rounds k"
    by (simp add: push_pop_rounds_def)
  then have "run (idle_3x4 (4 * x)) (push_pop_rounds (Suc k))
      = run (idle_3x4 (4 * (x + 1))) (push_pop_rounds k)"
    using push_pop_round_3x4 [of x] by (simp only: run_append) simp
  also have "\<dots> = Some (idle_3x4 (4 * (x + 1 + of_nat k)))"
    by (rule Suc.IH)
  finally show ?case by (simp add: algebra_simps)
qed

text \<open>
  C2, as stated, fails, in two ways. First, a buffer of \<open>2 ^ 31 + 1\<close> cells of two
  bytes that does not overwrite is constructed: its storage has
  \<open>(2 ^ 31 + 1) * 2 mod 2 ^ 32 = 2\<close> bytes. The cells \<open>[1, 2]\<close> and \<open>[3, 4]\<close> are pushed
  and two destinations are popped into; the four calls return \<open>NETWORK_OK\<close> and both
  destinations receive \<open>[3, 4]\<close>. Second, the buffer of three cells of four bytes is
  constructed, and a cell is pushed and popped \<open>2 ^ 30 - 2\<close> times, which leaves it
  empty with both indices at \<open>2 ^ 32 - 8\<close>. Three cells are pushed and three
  destinations are popped into; the six calls return \<open>NETWORK_OK\<close> and the destinations
  receive the first cell, the third and the third: \<open>indexInput\<close> passed \<open>2 ^ 32\<close>,
  which 12 does not divide, and the third cell was written over the second.
\<close>

theorem pushed_order_lost:
  "NETWORK_NewRingBuffer True (Some zero_bytes) 0x80000001 2 = Some (wide_2 [0, 0])
   \<and> push_then_pop (wide_2 [0, 0]) [[1, 2], [3, 4]] [Some [0, 0], Some [0, 0]]
     = Some ([NETWORK_OK, NETWORK_OK], [NETWORK_OK, NETWORK_OK], [Some [3, 4], Some [3, 4]])
   \<and> NETWORK_NewRingBuffer True (Some zero_bytes) 3 4 = Some (idle_3x4 0)
   \<and> run (idle_3x4 0) (push_pop_rounds 1073741822) = Some (idle_3x4 0xFFFFFFF8)
   \<and> push_then_pop (idle_3x4 0xFFFFFFF8) [cell_1, cell_2, cell_3]
        [Some dest_4, Some dest_4, Some dest_4]
     = Some ([NETWORK_OK, NETWORK_OK, NETWORK_OK], [NETWORK_OK, NETWORK_OK, NETWORK_OK],
             [Some cell_1, Some cell_3, Some cell_3])"
proof -
  have new2: "NETWORK_NewRingBuffer True (Some zero_bytes) 0x80000001 2 = Some (wide_2 [0, 0])"
    by (simp add: NETWORK_NewRingBuffer_def NETWORK_NewRingBufferWithOverwriting_def
        zero_bytes_def wide_2_def upt_rec)
  have lost2: "push_then_pop (wide_2 [0, 0]) [[1, 2], [3, 4]] [Some [0, 0], Some [0, 0]]
     = Some ([NETWORK_OK, NETWORK_OK], [NETWORK_OK, NETWORK_OK], [Some [3, 4], Some [3, 4]])"
    by (simp add: push_then_pop_def NETWORK_RingBuffPushBack_def NETWORK_RingBuffPopFront_def
        NETWORK_RingBuffGetFreeCellNb_def NETWORK_RingBuffIsEmpty_def buffPointor_def memcpy_def
        wide_2_def)
  have new3: "NETWORK_NewRingBuffer True (Some zero_bytes) 3 4 = Some (idle_3x4 0)"
    by (simp add: NETWORK_NewRingBuffer_def NETWORK_NewRingBufferWithOverwriting_def
        zero_bytes_def idle_3x4_def upt_rec)
  have "run (idle_3x4 (4 * 0)) (push_pop_rounds 1073741822)
      = Some (idle_3x4 (4 * (0 + of_nat 1073741822)))"
    by (rule push_pop_rounds_3x4_reach)
  then have reach: "run (idle_3x4 0) (push_pop_rounds 1073741822) = Some (idle_3x4 0xFFFFFFF8)"
    by simp
  have lost3: "push_then_pop (idle_3x4 0xFFFFFFF8) [cell_1, cell_2, cell_3]
        [Some dest_4, Some dest_4, Some dest_4]
     = Some ([NETWORK_OK, NETWORK_OK, NETWORK_OK], [NETWORK_OK, NETWORK_OK, NETWORK_OK],
             [Some cell_1, Some cell_3, Some cell_3])"
    by (simp add: push_then_pop_def NETWORK_RingBuffPushBack_def NETWORK_RingBuffPopFront_def
        NETWORK_RingBuffGetFreeCellNb_def NETWORK_RingBuffIsEmpty_def buffPointor_def memcpy_def
        idle_3x4_def cell_1_def cell_2_def cell_3_def dest_4_def)
  show ?thesis by (intro conjI new2 lost2 new3 reach lost3)
qed

text \<open>
  C2, amended. A buffer, overwriting or not, is well-sized (positive sizes, a storage
  of \<open>cellCount \<times> cellSize < 2 ^ 32\<close> bytes) and empty, with both indices at the same
  multiple of \<open>cellSize\<close>, anywhere in the ring. \<open>N \<le> cellCount\<close> cells of exactly
  \<open>cellSize\<close> bytes are pushed, \<open>indexInput\<close> not passing \<open>2 ^ 32\<close>, then \<open>N\<close>
  destinations of at least \<open>cellSize\<close> bytes are popped into. Every call returns
  \<open>NETWORK_OK\<close>, and the first \<open>cellSize\<close> bytes of the \<open>i\<close>-th destination are the
  \<open>i\<close>-th cell pushed. With \<open>N = 1\<close>: a push followed by a pop returns the pushed
  bytes.
\<close>

theorem first_in_first_out:
  assumes w: "wellSized rb" and a: "countsCells rb (indexInput rb)"
    and empty: "indexInput rb = indexOutput rb"
    and count: "length cells \<le> unat (numberOfCell rb)"
    and cells: "\<forall>c\<in>set cells. length c = unat (cellSize rb)"
    and dsts: "length dsts = length cells" "\<forall>d\<in>set dsts. unat (cellSize rb) \<le> length d"
    and nowrap: "unat (indexInput rb) + length cells * unat (cellSize rb) < 2 ^ 32"
  shows "push_then_pop rb cells (map Some dsts)
    = Some (replicate (length cells) NETWORK_OK, replicate (length cells) NETWORK_OK,
            map2 (\<lambda>c d. Some (c @ drop (unat (cellSize rb)) d)) cells dsts)"
proof -
  let ?C = "unat (cellSize rb)"
  have st: "steady rb"
    using w a empty
    by (simp add: steady_def occupancy_ok_def wellSized_def occupied_def)
  have h0: "held rb = 0" using held_empty_iff [OF st] empty by simp
  then have q0: "queued rb = []" using queued_length [of rb] by simp
  have "\<exists>rb'. push_cells rb cells = Some (replicate (length cells) NETWORK_OK, rb')
    \<and> steady rb' \<and> queued rb' = queued rb @ map (take ?C) cells
    \<and> numberOfCell rb' = numberOfCell rb \<and> cellSize rb' = cellSize rb
    \<and> isOverwriting rb' = isOverwriting rb
    \<and> unat (indexInput rb') = unat (indexInput rb) + length cells * unat (cellSize rb)"
    using st count cells nowrap h0 by (intro push_cells_enqueues) simp_all
  then obtain rb1 where push: "push_cells rb cells = Some (replicate (length cells) NETWORK_OK, rb1)"
    and st1: "steady rb1" and q1: "queued rb1 = map (take ?C) cells"
    and f: "cellSize rb1 = cellSize rb"
    by (auto simp: q0)
  have q1': "queued rb1 = cells"
    unfolding q1 using cells by (intro map_idI) simp
  have "\<exists>rb'. pop_cells rb1 (map Some dsts)
      = Some (replicate (length dsts) NETWORK_OK, rb',
              map2 (\<lambda>c d. Some (c @ drop (unat (cellSize rb1)) d)) (queued rb1) dsts)
    \<and> steady rb' \<and> queued rb' = drop (length dsts) (queued rb1)
    \<and> numberOfCell rb' = numberOfCell rb1 \<and> cellSize rb' = cellSize rb1
    \<and> isOverwriting rb' = isOverwriting rb1"
    using st1 dsts queued_length [of rb1] by (intro pop_cells_dequeues) (simp_all add: q1' f)
  then obtain rb2 where pop: "pop_cells rb1 (map Some dsts)
      = Some (replicate (length cells) NETWORK_OK, rb2,
              map2 (\<lambda>c d. Some (c @ drop ?C d)) cells dsts)"
    by (auto simp: q1' f dsts(1))
  show ?thesis by (simp add: push_then_pop_def push pop)
qed

theorem first_in_first_out_witness:
  "push_cells (idle_2x4 4) [cell_1, cell_2]
     = Some ([NETWORK_OK, NETWORK_OK], held_2x4 (cell_2 @ cell_1) 12 4 0)
   \<and> push_then_pop (idle_2x4 4) [cell_1, cell_2] [Some dest_4, Some dest_4]
     = Some ([NETWORK_OK, NETWORK_OK], [NETWORK_OK, NETWORK_OK], [Some cell_1, Some cell_2])
   \<and> push_then_pop (idle_2x4 4) [cell_3] [Some dest_4]
     = Some ([NETWORK_OK], [NETWORK_OK], [Some cell_3])"
proof -
  let ?rb = "idle_2x4 4"
  have w: "wellSized ?rb" by (simp add: wellSized_def idle_2x4_def)
  have a: "countsCells ?rb (indexInput ?rb)" by (simp add: countsCells_def idle_2x4_def)
  have e: "indexInput ?rb = indexOutput ?rb" by (simp add: idle_2x4_def)
  have ring: "push_cells ?rb [cell_1, cell_2]
     = Some ([NETWORK_OK, NETWORK_OK], held_2x4 (cell_2 @ cell_1) 12 4 0)"
    by code_simp
  have two: "push_then_pop ?rb [cell_1, cell_2] (map Some [dest_4, dest_4])
     = Some (replicate (length [cell_1, cell_2]) NETWORK_OK,
             replicate (length [cell_1, cell_2]) NETWORK_OK,
             map2 (\<lambda>c d. Some (c @ drop (unat (cellSize ?rb)) d)) [cell_1, cell_2]
               [dest_4, dest_4])"
    by (rule first_in_first_out [OF w a e])
       (simp_all add: idle_2x4_def cell_1_def cell_2_def dest_4_def)
  have one: "push_then_pop ?rb [cell_3] (map Some [dest_4])
     = Some (replicate (length [cell_3]) NETWORK_OK, replicate (length [cell_3]) NETWORK_OK,
             map2 (\<lambda>c d. Some (c @ drop (unat (cellSize ?rb)) d)) [cell_3] [dest_4])"
    by (rule first_in_first_out [OF w a e])
       (simp_all add: idle_2x4_def cell_3_def dest_4_def)
  have 2: "push_then_pop ?rb [cell_1, cell_2] [Some dest_4, Some dest_4]
     = Some ([NETWORK_OK, NETWORK_OK], [NETWORK_OK, NETWORK_OK], [Some cell_1, Some cell_2])"
    using two by (simp add: dest_4_def idle_2x4_def)
  have 1: "push_then_pop ?rb [cell_3] [Some dest_4]
     = Some ([NETWORK_OK], [NETWORK_OK], [Some cell_3])"
    using one by (simp add: dest_4_def idle_2x4_def)
  show ?thesis by (intro conjI ring 1 2)
qed

subsection \<open>The two scenarios of the specification, for any cells\<close>

text \<open>
  Full rejection: a buffer of two cells that does not overwrite takes two cells,
  refuses the third and is left as it was, and then gives the two cells back in order.
\<close>

lemma full_rejection_scenario:
  assumes new: "NETWORK_NewRingBuffer structAlloc dataAlloc 2 cs = Some rb0"
    and pos: "0 < cs" and len: "length (dataBuffer rb0) = 2 * unat cs"
    and cells: "length c1 = unat cs" "length c2 = unat cs" "unat cs \<le> length c3"
    and dsts: "unat cs \<le> length d1" "unat cs \<le> length d2"
  shows "\<exists>rb2 rb3. push_cells rb0 [c1, c2] = Some ([NETWORK_OK, NETWORK_OK], rb2)
    \<and> NETWORK_RingBuffPushBack rb2 c3 = Some (NETWORK_ERROR_BUFFER_SIZE, rb2)
    \<and> pop_cells rb2 [Some d1, Some d2]
        = Some ([NETWORK_OK, NETWORK_OK], rb3,
                [Some (c1 @ drop (unat cs) d1), Some (c2 @ drop (unat cs) d2)])"
proof -
  from new obtain bytes where rb0:
    "rb0 = \<lparr>dataBuffer = map bytes [0 ..< unat (cs * 2)], numberOfCell = 2, cellSize = cs,
            indexInput = 0, indexOutput = 0, isOverwriting = 0\<rparr>"
    unfolding NETWORK_NewRingBuffer_def by (rule NewRingBufferWithOverwriting_Some)
  have f0: "numberOfCell rb0 = 2" "cellSize rb0 = cs" "isOverwriting rb0 = 0"
    "indexInput rb0 = 0"
    by (simp_all add: rb0)
  have st0: "steady rb0" and q0: "queued rb0 = []"
    using constructed_steady [OF new [unfolded NETWORK_NewRingBuffer_def] _ pos] len
    by simp_all
  have fits: "2 * unat cs < 2 ^ 32"
    using st0 by (simp add: steady_def wellSized_def f0)
  have "\<exists>rb'. push_cells rb0 [c1, c2] = Some (replicate (length [c1, c2]) NETWORK_OK, rb')
    \<and> steady rb' \<and> queued rb' = queued rb0 @ map (take (unat (cellSize rb0))) [c1, c2]
    \<and> numberOfCell rb' = numberOfCell rb0 \<and> cellSize rb' = cellSize rb0
    \<and> isOverwriting rb' = isOverwriting rb0
    \<and> unat (indexInput rb') = unat (indexInput rb0) + length [c1, c2] * unat (cellSize rb0)"
    using st0 cells fits queued_length [of rb0]
    by (intro push_cells_enqueues) (simp_all add: f0 q0)
  then obtain rb2 where push: "push_cells rb0 [c1, c2] = Some ([NETWORK_OK, NETWORK_OK], rb2)"
    and st2: "steady rb2" and q2: "queued rb2 = [c1, c2]"
    and f2: "numberOfCell rb2 = 2" "cellSize rb2 = cs" "isOverwriting rb2 = 0"
    using cells by (auto simp: f0 q0)
  have held2: "held rb2 = unat (numberOfCell rb2)"
    using queued_length [of rb2] by (simp add: q2 f2)
  have w2: "wellSized rb2" using st2 by (simp add: steady_def)
  have refused: "NETWORK_RingBuffPushBack rb2 c3 = Some (NETWORK_ERROR_BUFFER_SIZE, rb2)"
    using held_full_iff [OF st2] held2 f2(3) wellSized_capacity(3) [OF w2]
    by (intro PushBack_full) simp_all
  have "\<exists>rb'. pop_cells rb2 (map Some [d1, d2])
      = Some (replicate (length [d1, d2]) NETWORK_OK, rb',
              map2 (\<lambda>c d. Some (c @ drop (unat (cellSize rb2)) d)) (queued rb2) [d1, d2])
    \<and> steady rb' \<and> queued rb' = drop (length [d1, d2]) (queued rb2)
    \<and> numberOfCell rb' = numberOfCell rb2 \<and> cellSize rb' = cellSize rb2
    \<and> isOverwriting rb' = isOverwriting rb2"
    using st2 dsts held2 by (intro pop_cells_dequeues) (simp_all add: f2)
  then obtain rb3 where "pop_cells rb2 [Some d1, Some d2]
        = Some ([NETWORK_OK, NETWORK_OK], rb3,
                [Some (c1 @ drop (unat cs) d1), Some (c2 @ drop (unat cs) d2)])"
    by (auto simp: q2 f2)
  then show ?thesis using push refused by blast
qed

text \<open>
  Overwrite: a buffer of two cells that overwrites takes three cells and then gives back
  the second and the third, in that order.
\<close>

lemma overwrite_scenario:
  assumes new: "NETWORK_NewRingBufferWithOverwriting structAlloc dataAlloc 2 cs ow = Some rb0"
    and ow: "ow \<noteq> 0"
    and pos: "0 < cs" and len: "length (dataBuffer rb0) = 2 * unat cs"
    and nowrap: "3 * unat cs < 2 ^ 32"
    and cells: "length c1 = unat cs" "length c2 = unat cs" "length c3 = unat cs"
    and dsts: "unat cs \<le> length d1" "unat cs \<le> length d2"
  shows "push_then_pop rb0 [c1, c2, c3] [Some d1, Some d2]
    = Some ([NETWORK_OK, NETWORK_OK, NETWORK_OK], [NETWORK_OK, NETWORK_OK],
            [Some (c2 @ drop (unat cs) d1), Some (c3 @ drop (unat cs) d2)])"
proof -
  from new obtain bytes where rb0:
    "rb0 = \<lparr>dataBuffer = map bytes [0 ..< unat (cs * 2)], numberOfCell = 2, cellSize = cs,
            indexInput = 0, indexOutput = 0, isOverwriting = ow\<rparr>"
    by (rule NewRingBufferWithOverwriting_Some)
  have f0: "numberOfCell rb0 = 2" "cellSize rb0 = cs" "isOverwriting rb0 = ow"
    "indexInput rb0 = 0"
    by (simp_all add: rb0)
  have st0: "steady rb0" and q0: "queued rb0 = []"
    using constructed_steady [OF new _ pos] len by simp_all
  have fits: "2 * unat cs < 2 ^ 32"
    using st0 by (simp add: steady_def wellSized_def f0)
  have "\<exists>rb'. push_cells rb0 [c1, c2] = Some (replicate (length [c1, c2]) NETWORK_OK, rb')
    \<and> steady rb' \<and> queued rb' = queued rb0 @ map (take (unat (cellSize rb0))) [c1, c2]
    \<and> numberOfCell rb' = numberOfCell rb0 \<and> cellSize rb' = cellSize rb0
    \<and> isOverwriting rb' = isOverwriting rb0
    \<and> unat (indexInput rb') = unat (indexInput rb0) + length [c1, c2] * unat (cellSize rb0)"
    using st0 cells fits queued_length [of rb0]
    by (intro push_cells_enqueues) (simp_all add: f0 q0)
  then obtain rb2 where push: "push_cells rb0 [c1, c2] = Some ([NETWORK_OK, NETWORK_OK], rb2)"
    and st2: "steady rb2" and q2: "queued rb2 = [c1, c2]"
    and f2: "numberOfCell rb2 = 2" "cellSize rb2 = cs" "isOverwriting rb2 = ow"
    and in2: "unat (indexInput rb2) = 2 * unat cs"
    using cells by (auto simp: f0 q0)
  have held2: "held rb2 = unat (numberOfCell rb2)"
    using queued_length [of rb2] by (simp add: q2 f2)
  have o2: "isOverwriting rb2 \<noteq> 0" using ow by (simp add: f2)
  have c3: "unat (cellSize rb2) \<le> length c3" using cells by (simp add: f2)
  have nw: "unat (indexInput rb2) + unat (cellSize rb2) < 2 ^ 32"
    using nowrap by (simp add: in2 f2)
  from st2 held2 o2 c3 nw obtain rb3 where
    third: "NETWORK_RingBuffPushBack rb2 c3 = Some (NETWORK_OK, rb3)"
    and st3: "steady rb3" and q3: "queued rb3 = [c2, c3]"
    and f3: "cellSize rb3 = cs"
    by (rule PushBack_replaces_oldest) (use cells in \<open>simp add: q2 f2\<close>)
  have pushes: "push_cells rb0 [c1, c2, c3]
      = Some ([NETWORK_OK, NETWORK_OK, NETWORK_OK], rb3)"
    using push_cells_snoc [of rb0 "[c1, c2]" c3] push third by simp
  have "\<exists>rb'. pop_cells rb3 (map Some [d1, d2])
      = Some (replicate (length [d1, d2]) NETWORK_OK, rb',
              map2 (\<lambda>c d. Some (c @ drop (unat (cellSize rb3)) d)) (queued rb3) [d1, d2])
    \<and> steady rb' \<and> queued rb' = drop (length [d1, d2]) (queued rb3)
    \<and> numberOfCell rb' = numberOfCell rb3 \<and> cellSize rb' = cellSize rb3
    \<and> isOverwriting rb' = isOverwriting rb3"
    using st3 dsts queued_length [of rb3] by (intro pop_cells_dequeues) (simp_all add: q3 f3)
  then obtain rb4 where "pop_cells rb3 [Some d1, Some d2]
        = Some ([NETWORK_OK, NETWORK_OK], rb4,
                [Some (c2 @ drop (unat cs) d1), Some (c3 @ drop (unat cs) d2)])"
    by (auto simp: q3 f3)
  then show ?thesis using pushes by (simp add: push_then_pop_def)
qed

end
